theory Spec2Isabelle
  imports Complex_Main "HOL-Library.Signed_Division" "HOL-Library.Monad_Syntax"
begin

section \<open>The interpolation kernel of \<^verbatim>\<open>interp_op.cc\<close>\<close>

text \<open>
  The kernel is a template over the element type \<open>T\<close>, instantiated with float and with
  double. A value of \<open>T\<close> is modelled as a value of the type \<open>'a fp\<close> below: NaN, an
  infinity or a finite number; an operation of \<open>T\<close> is the exact operation followed by
  the rounding of the format, which is a parameter of the model. \<open>int64\<close> is \<open>int\<close>:
  every index the kernel computes lies between \<open>-1\<close> and twice the length of an array held
  in memory, far from the 64-bit bounds, so no operation wraps. Division of \<open>int64\<close>
  truncates towards zero (\<open>sdiv\<close>).

  A raw pointer \<open>const T*\<close> is a buffer together with an element offset; reading or
  writing outside the buffer is undefined behaviour in the source and \<open>None\<close> here.
\<close>

subsection \<open>Buffers and pointers\<close>

type_synonym 'a ptr = "'a list \<times> int"

definition rd :: "'a list \<Rightarrow> int \<Rightarrow> 'a option" where
  "rd buf i = (if 0 \<le> i \<and> i < int (length buf) then Some (buf ! nat i) else None)"

definition wr :: "'a list \<Rightarrow> int \<Rightarrow> 'a \<Rightarrow> 'a list option" where
  "wr buf i c = (if 0 \<le> i \<and> i < int (length buf) then Some (buf[nat i := c]) else None)"

definition ptr_rd :: "'a ptr \<Rightarrow> int \<Rightarrow> 'a option" where
  "ptr_rd p i = rd (fst p) (snd p + i)"

subsection \<open>\<^verbatim>\<open>search_sorted\<close>\<close>

text \<open>
  \<^verbatim>\<open>
  int64 low = -1;  int64 high = N;
  while (high - low > 1) {
    int64 probe = (low + high) / 2;
    T v = x[probe];
    if (v > value) high = probe; else low = probe;
  }
  return high;
  \<close>
  The only operation on \<open>T\<close> is the comparison \<open>v > value\<close>, so the element type is any
  type with a comparison.
\<close>

definition probe_of :: "int \<Rightarrow> int \<Rightarrow> int" where
  "probe_of low high = (low + high) sdiv 2"

lemma probe_of_between:
  assumes "high - low > 1"
  shows "low < probe_of low high" and "probe_of low high < high"
proof -
  have "(low + high) div 2 \<le> probe_of low high"
    and "probe_of low high \<le> (low + high) div 2 + (if 2 dvd (low + high) then 0 else 1)"
    by (auto simp: probe_of_def signed_divide_int_eq_divide_int [of "low + high" 2])
  with assms show "low < probe_of low high" and "probe_of low high < high"
    by (presburger, presburger)
qed

function search_loop :: "'a::ord ptr \<Rightarrow> 'a \<Rightarrow> int \<Rightarrow> int \<Rightarrow> int option" where
  "search_loop x val low high =
     (if high - low > 1 then
        (let probe = probe_of low high in
         case ptr_rd x probe of
           None \<Rightarrow> None
         | Some v \<Rightarrow> if v > val then search_loop x val low probe
                     else search_loop x val probe high)
      else Some high)"
  by pat_completeness auto
termination
  by (relation "measure (\<lambda>(x, val, low, high). nat (high - low))")
     (use probe_of_between in \<open>auto simp: nat_less_iff\<close>)

definition search_sorted :: "int \<Rightarrow> 'a::ord ptr \<Rightarrow> 'a \<Rightarrow> int option" where
  "search_sorted N x val = search_loop x val (- 1) N"

subsection \<open>The element type \<open>T\<close> and its arithmetic\<close>

text \<open>
  A value of \<open>T\<close> is NaN, minus infinity, a finite number or plus infinity. The finite
  numbers are elements of an ordered field \<open>'a\<close>; which of them the format can represent
  is decided by its rounding. The two zeros of IEEE 754 are one value here: they compare
  equal, and the sign of a zero is not tracked.
\<close>

datatype 'a fp = NaN | NInf | Fin 'a | PInf

text \<open>
  The comparisons \<open><=\<close> and \<open><\<close> of \<open>T\<close>: false whenever an operand is NaN.
  \<open>a >= b\<close> is \<open>b <= a\<close> and \<open>a > b\<close> is \<open>b < a\<close>, in C++ as in HOL.
\<close>

instantiation fp :: (ord) ord
begin

fun less_eq_fp :: "'a fp \<Rightarrow> 'a fp \<Rightarrow> bool" where
  "less_eq_fp NaN y = False"
| "less_eq_fp x NaN = False"
| "less_eq_fp NInf y = True"
| "less_eq_fp x PInf = True"
| "less_eq_fp (Fin a) (Fin b) = (a \<le> b)"
| "less_eq_fp x y = False"

fun less_fp :: "'a fp \<Rightarrow> 'a fp \<Rightarrow> bool" where
  "less_fp NaN y = False"
| "less_fp x NaN = False"
| "less_fp PInf y = False"
| "less_fp x NInf = False"
| "less_fp (Fin a) (Fin b) = (a < b)"
| "less_fp x y = True"

instance ..

end

text \<open>The comparison \<open>==\<close> of \<open>T\<close>: a NaN is equal to nothing, itself included.\<close>

definition feq :: "'a fp \<Rightarrow> 'a fp \<Rightarrow> bool" where
  "feq x y \<longleftrightarrow> x \<noteq> NaN \<and> y \<noteq> NaN \<and> x = y"

text \<open>
  The arithmetic of a format: \<open>rnd\<close> rounds the exact result of an operation on finite
  operands to a value of \<open>T\<close> (a finite number, or an infinity on overflow). The literal
  \<open>1.0\<close> of the source has the type double, so the operations it takes part in round with
  the rounding of double, \<open>rnd_wide\<close>; for \<open>T = double\<close> the two are the same.
\<close>

record 'a arith =
  rnd :: "'a \<Rightarrow> 'a fp"
  rnd_wide :: "'a \<Rightarrow> 'a fp"

text \<open>
  Operations with a special operand follow IEEE 754; on finite operands they round. A zero
  divisor counts as \<open>+0\<close>, which is what the kernel's only divisor, a difference of two
  knots, is when the knots are equal.
\<close>

fun fneg :: "'a::uminus fp \<Rightarrow> 'a fp" where
  "fneg NaN = NaN"
| "fneg NInf = PInf"
| "fneg PInf = NInf"
| "fneg (Fin a) = Fin (- a)"

fun fadd :: "('a::plus \<Rightarrow> 'a fp) \<Rightarrow> 'a fp \<Rightarrow> 'a fp \<Rightarrow> 'a fp" where
  "fadd r NaN y = NaN"
| "fadd r x NaN = NaN"
| "fadd r (Fin a) (Fin b) = r (a + b)"
| "fadd r PInf NInf = NaN"
| "fadd r NInf PInf = NaN"
| "fadd r PInf y = PInf"
| "fadd r x PInf = PInf"
| "fadd r x y = NInf"

definition fsub :: "('a::{plus,uminus} \<Rightarrow> 'a fp) \<Rightarrow> 'a fp \<Rightarrow> 'a fp \<Rightarrow> 'a fp" where
  "fsub r x y = fadd r x (fneg y)"

fun fmul :: "('a::linordered_field \<Rightarrow> 'a fp) \<Rightarrow> 'a fp \<Rightarrow> 'a fp \<Rightarrow> 'a fp" where
  "fmul r NaN y = NaN"
| "fmul r x NaN = NaN"
| "fmul r (Fin a) (Fin b) = r (a * b)"
| "fmul r (Fin a) y = (if a = 0 then NaN else if (0 < a) = (y = PInf) then PInf else NInf)"
| "fmul r x (Fin b) = (if b = 0 then NaN else if (0 < b) = (x = PInf) then PInf else NInf)"
| "fmul r x y = (if x = y then PInf else NInf)"

fun fdiv :: "('a::linordered_field \<Rightarrow> 'a fp) \<Rightarrow> 'a fp \<Rightarrow> 'a fp \<Rightarrow> 'a fp" where
  "fdiv r NaN y = NaN"
| "fdiv r x NaN = NaN"
| "fdiv r (Fin a) (Fin b) =
     (if b = 0 then (if a = 0 then NaN else if 0 < a then PInf else NInf) else r (a / b))"
| "fdiv r (Fin a) y = Fin 0"
| "fdiv r x (Fin b) = (if (0 \<le> b) = (x = PInf) then PInf else NInf)"
| "fdiv r x y = NaN"

text \<open>The conversion of a double to \<open>T\<close>, which the store of a double into a \<open>T\<close> makes.\<close>

fun to_T :: "('a \<Rightarrow> 'a fp) \<Rightarrow> 'a fp \<Rightarrow> 'a fp" where
  "to_T r (Fin a) = r a"
| "to_T r x = x"

subsection \<open>\<^verbatim>\<open>std::fmod\<close> and the periodic wrap\<close>

text \<open>
  \<^verbatim>\<open>std::fmod\<close> is the C library's. For finite \<open>a\<close> and \<open>b \<noteq> 0\<close> it returns
  \<open>a - n * b\<close> where \<open>n\<close> is \<open>a / b\<close> with its fractional part cut off; IEEE 754
  computes this remainder without rounding error, so no rounding appears. It returns NaN
  when an operand is NaN, when \<open>a\<close> is infinite or when \<open>b\<close> is zero, and \<open>a\<close> itself when
  \<open>a\<close> is finite and \<open>b\<close> infinite.
\<close>

definition trunc_int :: "'a::floor_ceiling \<Rightarrow> int" where
  "trunc_int r = (if 0 \<le> r then \<lfloor>r\<rfloor> else \<lceil>r\<rceil>)"

definition trunc_rem :: "'a::floor_ceiling \<Rightarrow> 'a \<Rightarrow> 'a" where
  "trunc_rem a b = a - of_int (trunc_int (a / b)) * b"

fun fmod :: "'a::floor_ceiling fp \<Rightarrow> 'a fp \<Rightarrow> 'a fp" where
  "fmod NaN y = NaN"
| "fmod x NaN = NaN"
| "fmod (Fin a) (Fin b) = (if b = 0 then NaN else Fin (trunc_rem a b))"
| "fmod (Fin a) y = Fin a"
| "fmod x y = NaN"

text \<open>
  The first statement of the work loop's body:
  \<^verbatim>\<open>
  if (flag) {
    T trunc_mod = std::fmod(value, period);
    value = (value >= T(0)) ? trunc_mod : std::fmod(trunc_mod + period, period);
  }
  \<close>
\<close>

definition wrap :: "'a::floor_ceiling arith \<Rightarrow> bool \<Rightarrow> 'a fp \<Rightarrow> 'a fp \<Rightarrow> 'a fp" where
  "wrap f flg per val =
     (if flg then
        (let trunc_mod = fmod val per
         in if val \<ge> Fin 0 then trunc_mod else fmod (fadd (rnd f) trunc_mod per) per)
      else val)"

subsection \<open>The work lambda\<close>

text \<open>
  What the lambda captures: \<open>flag\<close>, \<open>M\<close>, \<open>period\<close>, the three input row pointers and
  the three output row pointers. An output pointer is the offset of the row in the output
  buffer; the buffers themselves are the state the lambda changes.
\<close>

record 'a captures =
  c_flag :: bool
  c_M :: int
  c_period :: "'a fp"
  c_tk :: "'a fp ptr"
  c_xk :: "'a fp ptr"
  c_yk :: "'a fp ptr"
  c_vk :: int
  c_ak :: int
  c_indsk :: int

record 'a outputs =
  v_data :: "'a fp list"
  a_data :: "'a fp list"
  inds_data :: "int list"

text \<open>
  One iteration of the loop over \<open>n\<close>:
  \<^verbatim>\<open>
  if (value <= xk[0]) {
    vk[n] = yk[0];  indsk[n] = 0;
  } else if (value >= xk[M-1]) {
    vk[n] = yk[M-1];  indsk[n] = M+1;
  } else {
    int64 ind = indsk[n] = search_sorted(M, xk, value);
    T a0 = ak[n] = (value - xk[ind-1]) / (xk[ind] - xk[ind-1]);
    vk[n] = a0 * yk[ind] + (1.0 - a0) * yk[ind-1];
  }
  \<close>
  The three branches are the source's, in its order; \<open>None\<close> is an access outside a
  buffer. In the last line \<open>a0 * yk[ind]\<close> is a product in \<open>T\<close>; \<open>1.0 - a0\<close>, the
  product with \<open>yk[ind-1]\<close> and the sum are operations of double, since \<open>1.0\<close> is a double;
  the store converts the sum to \<open>T\<close>.
\<close>

definition work_body :: "'a::floor_ceiling arith \<Rightarrow> 'a captures \<Rightarrow> int \<Rightarrow> 'a outputs \<Rightarrow> 'a outputs option" where
  "work_body f c n out =
     do {
       t_n \<leftarrow> ptr_rd (c_tk c) n;
       let val = wrap f (c_flag c) (c_period c) t_n;
       x_first \<leftarrow> ptr_rd (c_xk c) 0;
       if val \<le> x_first then
         do {
           y_first \<leftarrow> ptr_rd (c_yk c) 0;
           v' \<leftarrow> wr (v_data out) (c_vk c + n) y_first;
           inds' \<leftarrow> wr (inds_data out) (c_indsk c + n) 0;
           Some (out\<lparr>v_data := v', inds_data := inds'\<rparr>)
         }
       else
         do {
           x_last \<leftarrow> ptr_rd (c_xk c) (c_M c - 1);
           if val \<ge> x_last then
             do {
               y_last \<leftarrow> ptr_rd (c_yk c) (c_M c - 1);
               v' \<leftarrow> wr (v_data out) (c_vk c + n) y_last;
               inds' \<leftarrow> wr (inds_data out) (c_indsk c + n) (c_M c + 1);
               Some (out\<lparr>v_data := v', inds_data := inds'\<rparr>)
             }
           else
             do {
               ind \<leftarrow> search_sorted (c_M c) (c_xk c) val;
               inds' \<leftarrow> wr (inds_data out) (c_indsk c + n) ind;
               x_hi \<leftarrow> ptr_rd (c_xk c) ind;
               x_lo \<leftarrow> ptr_rd (c_xk c) (ind - 1);
               let a0 = fdiv (rnd f) (fsub (rnd f) val x_lo) (fsub (rnd f) x_hi x_lo);
               a' \<leftarrow> wr (a_data out) (c_ak c + n) a0;
               y_hi \<leftarrow> ptr_rd (c_yk c) ind;
               y_lo \<leftarrow> ptr_rd (c_yk c) (ind - 1);
               v' \<leftarrow> wr (v_data out) (c_vk c + n)
                       (to_T (rnd f)
                          (fadd (rnd_wide f) (fmul (rnd f) a0 y_hi)
                             (fmul (rnd_wide f) (fsub (rnd_wide f) (Fin 1) a0) y_lo)));
               Some (out\<lparr>v_data := v', a_data := a', inds_data := inds'\<rparr>)
             }
         }
     }"

text \<open>\<^verbatim>\<open>for (int64 n = begin; n < end; ++n) { ... }\<close>, the lambda called on a block.\<close>

function work :: "'a::floor_ceiling arith \<Rightarrow> 'a captures \<Rightarrow> int \<Rightarrow> int \<Rightarrow> 'a outputs \<Rightarrow> 'a outputs option" where
  "work f c n stop out =
     (if n < stop then
        (case work_body f c n out of
           None \<Rightarrow> None
         | Some out' \<Rightarrow> work f c (n + 1) stop out')
      else Some out)"
  by pat_completeness auto
termination
  by (relation "measure (\<lambda>(f, c, n, stop, out). nat (stop - n))") auto

subsection \<open>\<^verbatim>\<open>Shard\<close>\<close>

text \<open>
  \<^verbatim>\<open>Shard\<close> is the host runtime's (TensorFlow's work sharder), not part of this
  repository: it cuts \<open>[0, N)\<close> into contiguous, disjoint blocks and calls the work function
  on each of them. The blocks it chooses are a parameter of the model. A block is a pair
  \<open>(start, stop)\<close>, a sharding of \<open>[0, N)\<close> is a list of blocks that holds every index
  of \<open>[0, N)\<close> exactly once, and the work function runs on the blocks one after the
  other, in the order of the list. Threads are not modelled.
\<close>

definition block_indices :: "int \<times> int \<Rightarrow> int list" where
  "block_indices b = [fst b..snd b - 1]"

definition is_sharding :: "int \<Rightarrow> (int \<times> int) list \<Rightarrow> bool" where
  "is_sharding N bs \<longleftrightarrow> sort (concat (map block_indices bs)) = [0..N - 1]"

fun run_blocks :: "'a::floor_ceiling arith \<Rightarrow> 'a captures \<Rightarrow> (int \<times> int) list \<Rightarrow> 'a outputs \<Rightarrow> 'a outputs option" where
  "run_blocks f c [] out = Some out"
| "run_blocks f c (b # bs) out =
     (case work f c (fst b) (snd b) out of
        None \<Rightarrow> None
      | Some out' \<Rightarrow> run_blocks f c bs out')"

subsection \<open>Tensors and the kernel context\<close>

text \<open>
  A tensor is its shape and its elements in row-major order. \<^verbatim>\<open>flat_inner_dims<T, 2>\<close>
  views a tensor of shape \<open>[d\<^sub>0, ..., d\<^sub>r]\<close> as a matrix with \<open>d\<^sub>r\<close> columns, so the
  element \<open>(k, n)\<close> is at position \<open>k * d\<^sub>r + n\<close> of the flat buffer and \<^verbatim>\<open>&(t(k, 0))\<close>
  is the pointer at offset \<open>k * d\<^sub>r\<close>. \<^verbatim>\<open>dim_size\<close> is only called on a dimension the
  preceding rank checks have shown to exist.
\<close>

record 'a tensor =
  shape :: "int list"
  flat :: "'a list"

definition dims :: "('a, 'b) tensor_scheme \<Rightarrow> int" where
  "dims T = int (length (shape T))"

definition dim_size :: "('a, 'b) tensor_scheme \<Rightarrow> int \<Rightarrow> int" where
  "dim_size T k = shape T ! nat k"

definition num_elements :: "int list \<Rightarrow> nat" where
  "num_elements shp = nat (prod_list shp)"

datatype status = OK | InvalidArgument string

record 'a op_kernel_context =
  ctx_status :: status
  output_v :: "'a tensor option"
  output_a :: "'a tensor option"
  output_inds :: "int tensor option"

text \<open>
  What the host runtime contributes: the sharding of a row of \<open>N\<close> queries at a cost per
  query, and the contents of a freshly allocated output buffer (\<^verbatim>\<open>allocate_output\<close> does
  not initialise it).
\<close>

record 'a runtime =
  shard :: "int \<Rightarrow> int \<Rightarrow> (int \<times> int) list"
  fresh_v :: "nat \<Rightarrow> 'a"
  fresh_a :: "nat \<Rightarrow> 'a"
  fresh_inds :: "nat \<Rightarrow> int"

definition allocate :: "(nat \<Rightarrow> 'b) \<Rightarrow> int list \<Rightarrow> 'b list" where
  "allocate fresh shp = map fresh [0..<num_elements shp]"

subsection \<open>\<^verbatim>\<open>InterpOp::Compute\<close>\<close>

text \<open>
  \<^verbatim>\<open>
  int64 size = 1;
  for (int64 k = 0; k < ndim - 1; ++k) {
    int64 dim = t_tensor.dim_size(k);
    size *= dim;
    OP_REQUIRES(context, (x_tensor.dim_size(k) == dim && p_tensor.dim_size(k) == dim),
        errors::InvalidArgument("incompatible dimensions"));
  }
  \<close>
  \<^verbatim>\<open>OP_REQUIRES\<close> records the error in the context and returns from \<^verbatim>\<open>Compute\<close>;
  the loop's result is the error message or the final \<open>size\<close>.
\<close>

function outer_dims :: "'a tensor \<Rightarrow> 'a tensor \<Rightarrow> 'a tensor \<Rightarrow> int \<Rightarrow> int \<Rightarrow> int \<Rightarrow> string + int" where
  "outer_dims t p x ndim k sz =
     (if k < ndim - 1 then
        (let dim = dim_size t k in
         if dim_size x k = dim \<and> dim_size p k = dim
         then outer_dims t p x ndim (k + 1) (sz * dim)
         else Inl ''incompatible dimensions'')
      else Inr sz)"
  by pat_completeness auto
termination
  by (relation "measure (\<lambda>(t, p, x, ndim, k, sz). nat (ndim - 1 - k))") auto

text \<open>
  The body of the loop over the rows \<open>k\<close>: the captures of the lambda, with
  \<^verbatim>\<open>flag = (period > T(0))\<close>, then \<^verbatim>\<open>Shard\<close>. The first parameter \<open>f\<close> is the
  arithmetic of the template's \<open>T\<close>.
\<close>

definition row_captures :: "'a::floor_ceiling fp tensor \<Rightarrow> 'a fp tensor \<Rightarrow> 'a fp tensor \<Rightarrow> 'a fp tensor \<Rightarrow> int \<Rightarrow> int \<Rightarrow> int \<Rightarrow> 'a fp \<Rightarrow> 'a captures" where
  "row_captures t p x y N M k per =
     \<lparr>c_flag = (per > Fin 0), c_M = M, c_period = per,
      c_tk = (flat t, k * N), c_xk = (flat x, k * M), c_yk = (flat y, k * M),
      c_vk = k * N, c_ak = k * N, c_indsk = k * N\<rparr>"

definition row_body :: "'a::floor_ceiling arith \<Rightarrow> 'a fp runtime \<Rightarrow> 'a fp tensor \<Rightarrow> 'a fp tensor \<Rightarrow> 'a fp tensor \<Rightarrow> 'a fp tensor \<Rightarrow> int \<Rightarrow> int \<Rightarrow> int \<Rightarrow> 'a outputs \<Rightarrow> 'a outputs option" where
  "row_body f rt t p x y N M k out =
     do {
       per \<leftarrow> rd (flat p) k;
       let cost = 5 * M;
       run_blocks f (row_captures t p x y N M k per) (shard rt N cost) out
     }"

function row_loop :: "'a::floor_ceiling arith \<Rightarrow> 'a fp runtime \<Rightarrow> 'a fp tensor \<Rightarrow> 'a fp tensor \<Rightarrow> 'a fp tensor \<Rightarrow> 'a fp tensor \<Rightarrow> int \<Rightarrow> int \<Rightarrow> int \<Rightarrow> int \<Rightarrow> 'a outputs \<Rightarrow> 'a outputs option" where
  "row_loop f rt t p x y N M k sz out =
     (if k < sz then
        (case row_body f rt t p x y N M k out of
           None \<Rightarrow> None
         | Some out' \<Rightarrow> row_loop f rt t p x y N M (k + 1) sz out')
      else Some out)"
  by pat_completeness auto
termination
  by (relation "measure (\<lambda>(f, rt, t, p, x, y, N, M, k, sz, out). nat (sz - k))") auto

definition failed :: "string \<Rightarrow> 'a op_kernel_context" where
  "failed msg = \<lparr>ctx_status = InvalidArgument msg, output_v = None, output_a = None, output_inds = None\<rparr>"

definition Compute :: "'a::floor_ceiling arith \<Rightarrow> 'a fp runtime \<Rightarrow> 'a fp tensor \<Rightarrow> 'a fp tensor \<Rightarrow> 'a fp tensor \<Rightarrow> 'a fp tensor \<Rightarrow> 'a fp op_kernel_context option" where
  "Compute f rt t p x y =
     (let ndim = dims t in
      if \<not> ndim \<ge> 1 then Some (failed ''t must be at least 1D'')
      else if \<not> dims p = ndim - 1 then Some (failed ''p must have the dimension len(t.shape) - 1'')
      else if \<not> dims x = ndim then Some (failed ''x and t must have the same number of dimensions'')
      else if \<not> shape y = shape x then Some (failed ''x and y must be the same shape'')
      else
        case outer_dims t p x ndim 0 1 of
          Inl msg \<Rightarrow> Some (failed msg)
        | Inr sz \<Rightarrow>
            (let N = dim_size t (ndim - 1);
                 M = dim_size x (ndim - 1);
                 out0 = \<lparr>v_data = allocate (fresh_v rt) (shape t),
                         a_data = allocate (fresh_a rt) (shape t),
                         inds_data = allocate (fresh_inds rt) (shape t)\<rparr>
             in case row_loop f rt t p x y N M 0 sz out0 of
                  None \<Rightarrow> None
                | Some out \<Rightarrow>
                    Some \<lparr>ctx_status = OK,
                          output_v = Some \<lparr>shape = shape t, flat = v_data out\<rparr>,
                          output_a = Some \<lparr>shape = shape t, flat = a_data out\<rparr>,
                          output_inds = Some \<lparr>shape = shape t, flat = inds_data out\<rparr>\<rparr>))"

declare work.simps [simp del] outer_dims.simps [simp del] row_loop.simps [simp del]

subsection \<open>Valid inputs and the matrix view\<close>

text \<open>
  The inputs the data model of the specification describes: \<open>t\<close> has the shape
  \<open>batch @ [N]\<close>, \<open>p\<close> the shape \<open>batch\<close>, \<open>x\<close> and \<open>y\<close> the shape \<open>batch @ [M]\<close>
  with \<open>M \<ge> 1\<close> (the kernel reads \<open>x[k][0]\<close> and \<open>x[k][M-1]\<close> for every query), and every
  tensor holds as many elements as its shape says.
\<close>

definition wf_tensor :: "('a, 'b) tensor_scheme \<Rightarrow> bool" where
  "wf_tensor T \<longleftrightarrow> list_all (\<lambda>d. 0 \<le> d) (shape T) \<and> length (flat T) = num_elements (shape T)"

definition valid_input :: "'a tensor \<Rightarrow> 'a tensor \<Rightarrow> 'a tensor \<Rightarrow> 'a tensor \<Rightarrow> bool" where
  "valid_input t p x y \<longleftrightarrow>
     wf_tensor t \<and> wf_tensor p \<and> wf_tensor x \<and> wf_tensor y
     \<and> shape t \<noteq> [] \<and> shape p = butlast (shape t)
     \<and> shape x \<noteq> [] \<and> butlast (shape x) = butlast (shape t)
     \<and> shape y = shape x \<and> 1 \<le> last (shape x)"

text \<open>
  The number of rows, the length of a row, and the element \<open>(k, n)\<close> of the matrix view
  \<^verbatim>\<open>flat_inner_dims<T, 2>\<close>, which the source writes \<^verbatim>\<open>t(k, n)\<close> or, through the row
  pointer, \<^verbatim>\<open>tk[n]\<close>.
\<close>

definition batch_size :: "('a, 'b) tensor_scheme \<Rightarrow> int" where
  "batch_size T = prod_list (butlast (shape T))"

definition row_len :: "('a, 'b) tensor_scheme \<Rightarrow> int" where
  "row_len T = last (shape T)"

definition cell :: "('a, 'b) tensor_scheme \<Rightarrow> int \<Rightarrow> int \<Rightarrow> 'a" where
  "cell T k n = flat T ! nat (k * row_len T + n)"

text \<open>The query \<open>t(k, n)\<close> after the wrap step of row \<open>k\<close>, whose period is \<open>p(k)\<close>.\<close>

definition wrapped :: "'a::floor_ceiling arith \<Rightarrow> 'a fp tensor \<Rightarrow> 'a fp tensor \<Rightarrow> int \<Rightarrow> int \<Rightarrow> 'a fp" where
  "wrapped f t p k n = wrap f (flat p ! nat k > Fin 0) (flat p ! nat k) (cell t k n)"

text \<open>
  Every query of the batch is at or below the first knot of its row, at or above the last
  knot, or strictly between the two. A query for which no comparison holds (a NaN is
  involved) takes the last branch of the iteration, where the search returns \<open>M\<close> and the
  kernel reads \<open>x[k][M]\<close> and \<open>y[k][M]\<close>, past the end of the row and, in the last row,
  past the end of the buffer.
\<close>

definition classified :: "'a::floor_ceiling arith \<Rightarrow> 'a fp tensor \<Rightarrow> 'a fp tensor \<Rightarrow> 'a fp tensor \<Rightarrow> bool" where
  "classified f t p x \<longleftrightarrow>
     list_all (\<lambda>k. list_all (\<lambda>n.
         wrapped f t p k n \<le> cell x k 0
         \<or> cell x k (row_len x - 1) \<le> wrapped f t p k n
         \<or> (cell x k 0 < wrapped f t p k n \<and> wrapped f t p k n < cell x k (row_len x - 1)))
       [0..row_len t - 1]) [0..batch_size t - 1]"

subsection \<open>Properties of a rounding\<close>

text \<open>
  What IEEE 754 rounding guarantees in every rounding mode, and what the theorems about the
  wrap step use: a rounding is monotone, and a number the format represents rounds to
  itself. Zero is representable in every format.
\<close>

definition monotone_rounding :: "('a::ord \<Rightarrow> 'a fp) \<Rightarrow> bool" where
  "monotone_rounding r \<longleftrightarrow> (\<forall>a b. a \<le> b \<longrightarrow> r a \<le> r b)"

definition representable :: "('a \<Rightarrow> 'a fp) \<Rightarrow> 'a \<Rightarrow> bool" where
  "representable r a \<longleftrightarrow> r a = Fin a"

text \<open>The numbers of a list are representable in \<open>T\<close> and in double.\<close>

definition exact_on :: "'a arith \<Rightarrow> 'a list \<Rightarrow> bool" where
  "exact_on f vs \<longleftrightarrow> list_all (\<lambda>v. rnd f v = Fin v \<and> rnd_wide f v = Fin v) vs"

subsection \<open>The concrete scenario of the specification\<close>

text \<open>
  One row: \<open>x = [0, 1, 2, 3]\<close>, \<open>y = [0, 10, 20, 30]\<close>, \<open>p = 0\<close> (a scalar, so \<open>p\<close>
  has rank \<open>0\<close>), \<open>t = [-1, 0, 0.5, 1, 2.5, 3, 10]\<close>.
\<close>

definition scenario_t :: "rat fp tensor" where
  "scenario_t = \<lparr>shape = [7], flat = map Fin [- 1, 0, 1 / 2, 1, 5 / 2, 3, 10]\<rparr>"

definition scenario_p :: "rat fp tensor" where
  "scenario_p = \<lparr>shape = [], flat = map Fin [0]\<rparr>"

definition scenario_x :: "rat fp tensor" where
  "scenario_x = \<lparr>shape = [4], flat = map Fin [0, 1, 2, 3]\<rparr>"

definition scenario_y :: "rat fp tensor" where
  "scenario_y = \<lparr>shape = [4], flat = map Fin [0, 10, 20, 30]\<rparr>"

text \<open>
  A periodic row, with a query just below zero: \<open>x = y = [0, 1, 2]\<close>, \<open>p = 2\<close>,
  \<open>t = [2.5, -0.5, -2\<^sup>-\<^sup>6\<^sup>0]\<close>.
\<close>

definition periodic_t :: "rat fp tensor" where
  "periodic_t = \<lparr>shape = [1, 3], flat = map Fin [5 / 2, - (1 / 2), - (1 / 2 ^ 60)]\<rparr>"

definition periodic_p :: "rat fp tensor" where
  "periodic_p = \<lparr>shape = [1], flat = map Fin [2]\<rparr>"

definition periodic_x :: "rat fp tensor" where
  "periodic_x = \<lparr>shape = [1, 3], flat = map Fin [0, 1, 2]\<rparr>"

definition periodic_y :: "rat fp tensor" where
  "periodic_y = \<lparr>shape = [1, 3], flat = map Fin [0, 1, 2]\<rparr>"

text \<open>
  A format for the examples: round to the nearest multiple of \<open>2\<^sup>-\<^sup>5\<^sup>2\<close>, the spacing of
  double between \<open>1\<close> and \<open>2\<close>. It rounds \<open>2 - 2\<^sup>-\<^sup>6\<^sup>0\<close> to \<open>2\<close>, as double does.
\<close>

definition grid52 :: "rat \<Rightarrow> rat fp" where
  "grid52 a = Fin (of_int \<lfloor>a * 2 ^ 52 + 1 / 2\<rfloor> / 2 ^ 52)"

definition grid_arith :: "rat arith" where
  "grid_arith = \<lparr>rnd = grid52, rnd_wide = grid52\<rparr>"

text \<open>
  A runtime that runs every row as one block, the call \<^verbatim>\<open>work(0, N)\<close>, and hands out
  buffers filled with a recognisable value.
\<close>

definition single_block :: "rat fp runtime" where
  "single_block =
     \<lparr>shard = (\<lambda>N cost. [(0, N)]),
      fresh_v = (\<lambda>i. Fin (- 7)), fresh_a = (\<lambda>i. Fin (- 9)), fresh_inds = (\<lambda>i. - 5)\<rparr>"

text \<open>A runtime that cuts a row into three blocks and runs the last one first.\<close>

definition three_blocks :: "rat fp runtime" where
  "three_blocks =
     \<lparr>shard = (\<lambda>N cost. [(2 * (N sdiv 3), N), (0, N sdiv 3), (N sdiv 3, 2 * (N sdiv 3))]),
      fresh_v = (\<lambda>i. Fin (- 7)), fresh_a = (\<lambda>i. Fin (- 9)), fresh_inds = (\<lambda>i. - 5)\<rparr>"

section \<open>Properties of the model\<close>

subsection \<open>The bounded search\<close>

declare search_loop.simps [simp del]

lemma search_loop_done: "\<not> 1 < high - low \<Longrightarrow> search_loop x val low high = Some high"
  by (simp add: search_loop.simps)

lemma search_loop_inv:
  assumes "\<forall>i. low < i \<and> i < high \<longrightarrow> 0 \<le> snd x + i \<and> snd x + i < int (length (fst x))"
    and "low < high"
  shows "\<exists>h. search_loop x val low high = Some h \<and> low < h \<and> h \<le> high
           \<and> (h < high \<longrightarrow> (\<exists>v. ptr_rd x h = Some v \<and> val < v))
           \<and> (low < h - 1 \<longrightarrow> (\<exists>v. ptr_rd x (h - 1) = Some v \<and> \<not> val < v))"
  using assms
proof (induction x val low high rule: search_loop.induct)
  case (1 x val low high)
  show ?case
  proof (cases "1 < high - low")
    case False
    with "1.prems" have "high = low + 1" by simp
    then show ?thesis by (simp add: search_loop_done)
  next
    case True
    define probe where "probe = probe_of low high"
    have pb: "low < probe" "probe < high"
      using probe_of_between [OF True] by (simp_all add: probe_def)
    with "1.prems" obtain v where v: "ptr_rd x probe = Some v"
      by (auto simp: ptr_rd_def rd_def)
    show ?thesis
    proof (cases "val < v")
      case gt: True
      have bounds: "\<forall>i. low < i \<and> i < probe \<longrightarrow> 0 \<le> snd x + i \<and> snd x + i < int (length (fst x))"
        using "1.prems" pb by auto
      from "1.IH"(1) [OF True probe_def v gt bounds pb(1)]
      obtain h where h: "search_loop x val low probe = Some h" "low < h" "h \<le> probe"
        "h < probe \<longrightarrow> (\<exists>v. ptr_rd x h = Some v \<and> val < v)"
        "low < h - 1 \<longrightarrow> (\<exists>v. ptr_rd x (h - 1) = Some v \<and> \<not> val < v)"
        by (auto simp: probe_def)
      have "search_loop x val low high = Some h"
        using True v gt h(1) by (subst search_loop.simps) (simp add: probe_def Let_def)
      with h pb v gt show ?thesis by (cases "h = probe") auto
    next
      case le: False
      have bounds: "\<forall>i. probe < i \<and> i < high \<longrightarrow> 0 \<le> snd x + i \<and> snd x + i < int (length (fst x))"
        using "1.prems" pb by auto
      from "1.IH"(2) [OF True probe_def v le bounds pb(2)]
      obtain h where h: "search_loop x val probe high = Some h" "probe < h" "h \<le> high"
        "h < high \<longrightarrow> (\<exists>v. ptr_rd x h = Some v \<and> val < v)"
        "probe < h - 1 \<longrightarrow> (\<exists>v. ptr_rd x (h - 1) = Some v \<and> \<not> val < v)"
        by (auto simp: probe_def)
      have "search_loop x val low high = Some h"
        using True v le h(1) by (subst search_loop.simps) (simp add: probe_def Let_def)
      with h pb v le show ?thesis by (cases "h - 1 = probe") auto
    qed
  qed
qed


lemma search_sorted_inv:
  assumes "0 \<le> snd x" and "snd x + N \<le> int (length (fst x))" and "0 \<le> N"
  shows "\<exists>h. search_sorted N x val = Some h \<and> 0 \<le> h \<and> h \<le> N
           \<and> (h < N \<longrightarrow> (\<exists>v. ptr_rd x h = Some v \<and> val < v))
           \<and> (0 < h \<longrightarrow> (\<exists>v. ptr_rd x (h - 1) = Some v \<and> \<not> val < v))"
proof -
  have "\<forall>i. - 1 < i \<and> i < N \<longrightarrow> 0 \<le> snd x + i \<and> snd x + i < int (length (fst x))"
    using assms by auto
  moreover have "- 1 < N" using assms by simp
  ultimately obtain h where "search_loop x val (- 1) N = Some h" "- 1 < h" "h \<le> N"
    "h < N \<longrightarrow> (\<exists>v. ptr_rd x h = Some v \<and> val < v)"
    "- 1 < h - 1 \<longrightarrow> (\<exists>v. ptr_rd x (h - 1) = Some v \<and> \<not> val < v)"
    using search_loop_inv [of "- 1" N x val] by blast
  then show ?thesis by (auto simp: search_sorted_def)
qed

subsection \<open>Facts about the comparisons of \<open>T\<close>\<close>

lemma fp_less_trans: "a < b \<Longrightarrow> b < c \<Longrightarrow> a < (c :: 'a::order fp)"
  by (cases a; cases b; cases c) auto

lemma fp_less_irrefl: "\<not> a < (a :: 'a::order fp)"
  by (cases a) auto

lemma fp_less_not_le: "a < b \<Longrightarrow> \<not> b \<le> (a :: 'a::linorder fp)"
  by (cases a; cases b) auto

lemma fp_le_not_less: "a \<le> b \<Longrightarrow> \<not> b < (a :: 'a::linorder fp)"
  by (cases a; cases b) auto

lemma fp_less_numbers: "a < b \<Longrightarrow> a \<noteq> NaN" "a < b \<Longrightarrow> b \<noteq> (NaN :: 'a::order fp)"
  by (cases a; cases b; auto)+

lemma fp_not_less_le: "a \<noteq> NaN \<Longrightarrow> b \<noteq> NaN \<Longrightarrow> \<not> a < b \<Longrightarrow> b \<le> (a :: 'a::linorder fp)"
  by (cases a; cases b) auto

lemma fp_between:
  fixes x :: "'a::order fp"
  assumes "Fin a \<le> x" and "x \<le> Fin b"
  shows "\<exists>c. x = Fin c \<and> a \<le> c \<and> c \<le> b"
  using assms by (cases x) auto

subsection \<open>Facts about \<open>fmod\<close> and the wrap step\<close>

lemma trunc_rem_nonneg:
  fixes a b :: "'a::floor_ceiling"
  assumes "0 < b" and "0 \<le> a"
  shows "0 \<le> trunc_rem a b" and "trunc_rem a b < b"
proof -
  have q: "0 \<le> a / b" using assms by simp
  have ab: "a / b * b = a" using assms by simp
  have "of_int \<lfloor>a / b\<rfloor> * b \<le> a / b * b"
    using assms(1) by (intro mult_right_mono) simp_all
  moreover have "a / b * b < (of_int \<lfloor>a / b\<rfloor> + 1) * b"
    using assms(1) by (intro mult_strict_right_mono) (simp_all, linarith)
  ultimately have "of_int \<lfloor>a / b\<rfloor> * b \<le> a" and "a < (of_int \<lfloor>a / b\<rfloor> + 1) * b"
    by (simp_all only: ab)
  with q show "0 \<le> trunc_rem a b" and "trunc_rem a b < b"
    by (simp_all add: trunc_rem_def trunc_int_def algebra_simps)
qed

lemma trunc_rem_neg:
  fixes a b :: "'a::floor_ceiling"
  assumes "0 < b" and "a < 0"
  shows "- b < trunc_rem a b" and "trunc_rem a b \<le> 0"
proof -
  have q: "\<not> 0 \<le> a / b" using assms by (simp add: divide_less_0_iff not_le)
  have ab: "a / b * b = a" using assms by simp
  have "a / b * b \<le> of_int \<lceil>a / b\<rceil> * b"
    using assms(1) by (intro mult_right_mono) simp_all
  moreover have "(of_int \<lceil>a / b\<rceil> - 1) * b < a / b * b"
    using assms(1) by (intro mult_strict_right_mono) (simp_all, linarith)
  ultimately have "a \<le> of_int \<lceil>a / b\<rceil> * b" and "(of_int \<lceil>a / b\<rceil> - 1) * b < a"
    by (simp_all only: ab)
  with q show "- b < trunc_rem a b" and "trunc_rem a b \<le> 0"
    by (simp_all add: trunc_rem_def trunc_int_def algebra_simps)
qed

lemma trunc_rem_small:
  fixes a b :: "'a::floor_ceiling"
  assumes "0 \<le> a" and "a < b"
  shows "trunc_rem a b = a"
proof -
  have "0 \<le> a / b" and "a / b < 1" using assms by simp_all
  then have "\<lfloor>a / b\<rfloor> = 0" by (simp add: floor_eq_iff)
  with \<open>0 \<le> a / b\<close> show ?thesis by (simp add: trunc_rem_def trunc_int_def)
qed


lemma wrap_nonneg_finite:
  fixes q r :: "'a::floor_ceiling"
  assumes "0 < q" and "0 \<le> r"
  shows "wrap f True (Fin q) (Fin r) = Fin (trunc_rem r q)"
  using assms by (simp add: wrap_def)

lemma wrap_nonneg_infinite:
  fixes r :: "'a::floor_ceiling"
  assumes "0 \<le> r"
  shows "wrap f True PInf (Fin r) = Fin r"
  using assms by (simp add: wrap_def)

lemma round_between:
  fixes q e :: "'a::floor_ceiling"
  assumes mono: "monotone_rounding r" and r0: "representable r 0" and rq: "representable r q"
    and e: "0 \<le> e" "e \<le> q"
  shows "\<exists>s. r e = Fin s \<and> 0 \<le> s \<and> s \<le> q"
proof -
  from mono e have "r 0 \<le> r e" and "r e \<le> r q"
    by (simp_all add: monotone_rounding_def)
  with r0 rq have "Fin 0 \<le> r e" and "r e \<le> Fin q"
    by (simp_all add: representable_def)
  then show ?thesis by (rule fp_between)
qed

lemma wrap_neg_finite:
  fixes q r :: "'a::floor_ceiling"
  assumes mono: "monotone_rounding (rnd f)" and r0: "representable (rnd f) 0"
    and rq: "representable (rnd f) q" and q: "0 < q" and r: "r < 0"
  shows "\<exists>s. rnd f (trunc_rem r q + q) = Fin s \<and> 0 \<le> s \<and> s \<le> q
           \<and> wrap f True (Fin q) (Fin r) = Fin (trunc_rem s q)"
proof -
  from trunc_rem_neg [OF q r] have "0 \<le> trunc_rem r q + q" and "trunc_rem r q + q \<le> q"
    by simp_all
  from round_between [OF mono r0 rq this]
  obtain s where s: "rnd f (trunc_rem r q + q) = Fin s" "0 \<le> s" "s \<le> q" by blast
  have "wrap f True (Fin q) (Fin r) = Fin (trunc_rem s q)"
    using q r s(1) by (simp add: wrap_def Let_def)
  with s show ?thesis by blast
qed

text \<open>For finite operands the wrapped value is a finite number in \<open>[0, q)\<close>.\<close>

lemma wrap_finite:
  fixes q r :: "'a::floor_ceiling"
  assumes mono: "monotone_rounding (rnd f)" and r0: "representable (rnd f) 0"
    and rq: "representable (rnd f) q" and q: "0 < q"
  shows "\<exists>w. wrap f True (Fin q) (Fin r) = Fin w \<and> 0 \<le> w \<and> w < q"
proof (cases "0 \<le> r")
  case True
  with q trunc_rem_nonneg [OF q True] show ?thesis
    by (simp add: wrap_nonneg_finite)
next
  case False
  then have "r < 0" by simp
  from wrap_neg_finite [OF mono r0 rq q this]
  obtain s where s: "0 \<le> s" "wrap f True (Fin q) (Fin r) = Fin (trunc_rem s q)" by blast
  with trunc_rem_nonneg [OF q s(1)] show ?thesis by simp
qed

text \<open>A wrapped value that is not NaN is a finite number in \<open>[0, period)\<close>.\<close>

lemma wrap_not_NaN:
  fixes per val :: "'a::floor_ceiling fp"
  assumes mono: "monotone_rounding (rnd f)" and r0: "representable (rnd f) 0"
    and rq: "\<forall>q. per = Fin q \<longrightarrow> representable (rnd f) q" and per: "Fin 0 < per"
    and n: "wrap f True per val \<noteq> NaN"
  shows "\<exists>w. wrap f True per val = Fin w \<and> 0 \<le> w \<and> Fin w < per"
proof (cases val)
  case NaN
  with n show ?thesis by (cases per) (simp_all add: wrap_def)
next
  case NInf
  with n show ?thesis by (cases per) (simp_all add: wrap_def)
next
  case PInf
  with n show ?thesis by (cases per) (simp_all add: wrap_def)
next
  case (Fin r)
  show ?thesis
  proof (cases per)
    case (Fin q)
    with per have q: "0 < q" by simp
    from rq Fin have "representable (rnd f) q" by simp
    from wrap_finite [OF mono r0 this q, of r] \<open>val = Fin r\<close> Fin show ?thesis by simp
  next
    case PInf
    show ?thesis
    proof (cases "0 \<le> r")
      case True
      with PInf \<open>val = Fin r\<close> show ?thesis by (simp add: wrap_nonneg_infinite)
    next
      case False
      with PInf \<open>val = Fin r\<close> n show ?thesis by (simp add: wrap_def)
    qed
  qed (use per in simp_all)
qed

subsection \<open>What one iteration writes\<close>

text \<open>
  An iteration of the work loop reads the inputs, computes up to three values and stores
  them at position \<open>n\<close> of the row. \<open>point\<close> is the computation without the stores: the
  value for \<open>v\<close>, the value for \<open>a\<close> if one is written, and the value for \<open>inds\<close>.
  \<open>store\<close> is the stores alone. \<open>work_body\<close> is \<open>point\<close> followed by \<open>store\<close>, which
  makes the result of a block, and of any list of blocks, a function of the set of indices
  the blocks cover.
\<close>

definition interior_a :: "'a::floor_ceiling arith \<Rightarrow> 'a fp \<Rightarrow> 'a fp \<Rightarrow> 'a fp \<Rightarrow> 'a fp" where
  "interior_a f val x_lo x_hi = fdiv (rnd f) (fsub (rnd f) val x_lo) (fsub (rnd f) x_hi x_lo)"

definition interior_v :: "'a::floor_ceiling arith \<Rightarrow> 'a fp \<Rightarrow> 'a fp \<Rightarrow> 'a fp \<Rightarrow> 'a fp" where
  "interior_v f a0 y_lo y_hi =
     to_T (rnd f)
       (fadd (rnd_wide f) (fmul (rnd f) a0 y_hi)
          (fmul (rnd_wide f) (fsub (rnd_wide f) (Fin 1) a0) y_lo))"

definition point :: "'a::floor_ceiling arith \<Rightarrow> 'a captures \<Rightarrow> int \<Rightarrow> ('a fp \<times> 'a fp option \<times> int) option" where
  "point f c n =
     do {
       t_n \<leftarrow> ptr_rd (c_tk c) n;
       let val = wrap f (c_flag c) (c_period c) t_n;
       x_first \<leftarrow> ptr_rd (c_xk c) 0;
       if val \<le> x_first then
         do { y_first \<leftarrow> ptr_rd (c_yk c) 0; Some (y_first, None, 0) }
       else
         do {
           x_last \<leftarrow> ptr_rd (c_xk c) (c_M c - 1);
           if val \<ge> x_last then
             do { y_last \<leftarrow> ptr_rd (c_yk c) (c_M c - 1); Some (y_last, None, c_M c + 1) }
           else
             do {
               ind \<leftarrow> search_sorted (c_M c) (c_xk c) val;
               x_hi \<leftarrow> ptr_rd (c_xk c) ind;
               x_lo \<leftarrow> ptr_rd (c_xk c) (ind - 1);
               let a0 = interior_a f val x_lo x_hi;
               y_hi \<leftarrow> ptr_rd (c_yk c) ind;
               y_lo \<leftarrow> ptr_rd (c_yk c) (ind - 1);
               Some (interior_v f a0 y_lo y_hi, Some a0, ind)
             }
         }
     }"

definition store :: "'a captures \<Rightarrow> int \<Rightarrow> 'a fp \<times> 'a fp option \<times> int \<Rightarrow> 'a outputs \<Rightarrow> 'a outputs option" where
  "store c n r out =
     do {
       v' \<leftarrow> wr (v_data out) (c_vk c + n) (fst r);
       a' \<leftarrow> (case fst (snd r) of None \<Rightarrow> Some (a_data out) | Some w \<Rightarrow> wr (a_data out) (c_ak c + n) w);
       inds' \<leftarrow> wr (inds_data out) (c_indsk c + n) (snd (snd r));
       Some \<lparr>v_data = v', a_data = a', inds_data = inds'\<rparr>
     }"

lemma work_body_eq: "work_body f c n out = Option.bind (point f c n) (\<lambda>r. store c n r out)"
  unfolding work_body_def point_def store_def interior_a_def interior_v_def
  by (auto simp: Let_def split: bind_splits option.splits if_splits)


definition pt_v :: "'a::floor_ceiling arith \<Rightarrow> 'a captures \<Rightarrow> int \<Rightarrow> 'a fp" where
  "pt_v f c n = fst (the (point f c n))"
definition pt_a :: "'a::floor_ceiling arith \<Rightarrow> 'a captures \<Rightarrow> int \<Rightarrow> 'a fp option" where
  "pt_a f c n = fst (snd (the (point f c n)))"
definition pt_inds :: "'a::floor_ceiling arith \<Rightarrow> 'a captures \<Rightarrow> int \<Rightarrow> int" where
  "pt_inds f c n = snd (snd (the (point f c n)))"

definition in_buf :: "'b list \<Rightarrow> int \<Rightarrow> bool" where
  "in_buf buf i \<longleftrightarrow> 0 \<le> i \<and> i < int (length buf)"

definition ok :: "'a::floor_ceiling arith \<Rightarrow> 'a captures \<Rightarrow> int \<Rightarrow> 'a outputs \<Rightarrow> bool" where
  "ok f c n out \<longleftrightarrow>
     point f c n \<noteq> None \<and> in_buf (v_data out) (c_vk c + n)
     \<and> (pt_a f c n \<noteq> None \<longrightarrow> in_buf (a_data out) (c_ak c + n))
     \<and> in_buf (inds_data out) (c_indsk c + n)"

definition written :: "'a::floor_ceiling arith \<Rightarrow> 'a captures \<Rightarrow> int set \<Rightarrow> 'a outputs \<Rightarrow> 'a outputs" where
  "written f c S out =
     \<lparr>v_data = map (\<lambda>j. if int j - c_vk c \<in> S then pt_v f c (int j - c_vk c) else v_data out ! j)
                  [0..<length (v_data out)],
      a_data = map (\<lambda>j. if int j - c_ak c \<in> S
                          then (case pt_a f c (int j - c_ak c) of None \<Rightarrow> a_data out ! j | Some w \<Rightarrow> w)
                          else a_data out ! j)
                  [0..<length (a_data out)],
      inds_data = map (\<lambda>j. if int j - c_indsk c \<in> S then pt_inds f c (int j - c_indsk c) else inds_data out ! j)
                  [0..<length (inds_data out)]\<rparr>"

lemma wr_eq: "wr buf i w = (if in_buf buf i then Some (buf[nat i := w]) else None)"
  by (simp add: wr_def in_buf_def)

lemma upd_as_map:
  assumes "in_buf xs (off + n)"
  shows "xs[nat (off + n) := w] = map (\<lambda>j. if int j - off \<in> {n} then w else xs ! j) [0..<length xs]"
proof (rule nth_equalityI)
  show "length (xs[nat (off + n) := w]) = length (map (\<lambda>j. if int j - off \<in> {n} then w else xs ! j) [0..<length xs])"
    by simp
next
  fix j assume "j < length (xs[nat (off + n) := w])"
  then have j: "j < length xs" by simp
  have "int j - off = n \<longleftrightarrow> j = nat (off + n)"
    using assms by (auto simp: in_buf_def)
  with j show "xs[nat (off + n) := w] ! j = map (\<lambda>j. if int j - off \<in> {n} then w else xs ! j) [0..<length xs] ! j"
    by (simp add: nth_list_update)
qed

lemma work_body_written:
  "work_body f c n out = (if ok f c n out then Some (written f c {n} out) else None)"
proof (cases "point f c n")
  case None
  then show ?thesis by (simp add: work_body_eq ok_def)
next
  case (Some r)
  obtain rv ra ri where r: "r = (rv, ra, ri)" by (cases r)
  have pts: "pt_v f c n = rv" "pt_a f c n = ra" "pt_inds f c n = ri"
    using Some r by (simp_all add: pt_v_def pt_a_def pt_inds_def)
  have sing: "\<And>m. m \<in> {n} \<longleftrightarrow> m = n" by simp
  show ?thesis
  proof (cases "ok f c n out")
    case False
    with Some pts show ?thesis
      by (auto simp: work_body_eq store_def wr_eq ok_def r split: option.splits bind_splits)
  next
    case True
    then have b: "in_buf (v_data out) (c_vk c + n)" "in_buf (inds_data out) (c_indsk c + n)"
      "ra \<noteq> None \<longrightarrow> in_buf (a_data out) (c_ak c + n)"
      by (simp_all add: ok_def pts)
    have v: "(v_data out)[nat (c_vk c + n) := rv] = v_data (written f c {n} out)"
      using upd_as_map [OF b(1), of rv] by (simp add: written_def pts cong: map_cong)
    have i: "(inds_data out)[nat (c_indsk c + n) := ri] = inds_data (written f c {n} out)"
      using upd_as_map [OF b(2), of ri] by (simp add: written_def pts cong: map_cong)
    have a: "(case ra of None \<Rightarrow> a_data out | Some w \<Rightarrow> (a_data out)[nat (c_ak c + n) := w])
              = a_data (written f c {n} out)"
    proof (cases ra)
      case None
      have "a_data (written f c {n} out) = a_data out"
        by (rule nth_equalityI) (auto simp: written_def pts None)
      with None show ?thesis by simp
    next
      case (Some w)
      with b(3) have "in_buf (a_data out) (c_ak c + n)" by simp
      from upd_as_map [OF this, of w] Some show ?thesis
        by (simp add: written_def pts cong: map_cong)
    qed
    have "store c n r out = Some (written f c {n} out)"
      using b v i a by (cases ra) (auto simp: store_def wr_eq r)
    with Some True show ?thesis by (simp add: work_body_eq)
  qed
qed

lemma ok_written [simp]: "ok f c n (written f c S out) = ok f c n out"
  by (simp add: ok_def written_def in_buf_def)

lemma written_written: "written f c S2 (written f c S1 out) = written f c (S1 \<union> S2) out"
  by (auto simp: written_def split: option.splits)

lemma written_empty [simp]: "written f c {} out = out"
  by (simp add: written_def map_nth)


lemma work_written:
  "work f c s e out = (if \<forall>n. s \<le> n \<and> n < e \<longrightarrow> ok f c n out then Some (written f c {s..<e} out) else None)"
proof (induction f c s e out rule: work.induct)
  case (1 f c n stop out)
  show ?case
  proof (cases "n < stop")
    case False
    then show ?thesis by (simp add: work.simps)
  next
    case True
    show ?thesis
    proof (cases "ok f c n out")
      case False
      with True have "\<not> (\<forall>m. n \<le> m \<and> m < stop \<longrightarrow> ok f c m out)" by auto
      with True False show ?thesis
        by (simp add: work.simps [of f c n stop out] work_body_written)
    next
      case okn: True
      have body: "work_body f c n out = Some (written f c {n} out)"
        using okn by (simp add: work_body_written)
      have split: "insert n {n + 1..<stop} = {n..<stop}" using True by auto
      have all: "(\<forall>m. n \<le> m \<and> m < stop \<longrightarrow> ok f c m out) \<longleftrightarrow> (\<forall>m. n + 1 \<le> m \<and> m < stop \<longrightarrow> ok f c m out)"
      proof
        assume r: "\<forall>m. n + 1 \<le> m \<and> m < stop \<longrightarrow> ok f c m out"
        show "\<forall>m. n \<le> m \<and> m < stop \<longrightarrow> ok f c m out"
        proof (intro allI impI)
          fix m assume "n \<le> m \<and> m < stop"
          then have "m = n \<or> (n + 1 \<le> m \<and> m < stop)" by auto
          with okn r show "ok f c m out" by blast
        qed
      qed auto
      have "work f c n stop out = work f c (n + 1) stop (written f c {n} out)"
        using True body by (simp add: work.simps [of f c n stop out])
      also have "\<dots> = (if \<forall>m. n + 1 \<le> m \<and> m < stop \<longrightarrow> ok f c m out
                        then Some (written f c {n..<stop} out) else None)"
        by (simp add: "1.IH" [OF True body] written_written split)
      finally show ?thesis by (simp only: all)
    qed
  qed
qed

definition blocks_set :: "(int \<times> int) list \<Rightarrow> int set" where
  "blocks_set bs = (\<Union>b\<in>set bs. {fst b..<snd b})"

lemma run_blocks_written:
  "run_blocks f c bs out = (if \<forall>n\<in>blocks_set bs. ok f c n out then Some (written f c (blocks_set bs) out) else None)"
proof (induction bs arbitrary: out)
  case Nil
  then show ?case by (simp add: blocks_set_def)
next
  case (Cons b bs)
  have bs: "blocks_set (b # bs) = {fst b..<snd b} \<union> blocks_set bs"
    by (simp add: blocks_set_def)
  show ?case
  proof (cases "\<forall>n. fst b \<le> n \<and> n < snd b \<longrightarrow> ok f c n out")
    case False
    then have w: "work f c (fst b) (snd b) out = None" by (simp add: work_written)
    from False have "\<not> (\<forall>n\<in>blocks_set (b # bs). ok f c n out)" by (auto simp: bs)
    then show ?thesis by (simp add: w)
  next
    case True
    then have w: "work f c (fst b) (snd b) out = Some (written f c {fst b..<snd b} out)"
      by (simp add: work_written)
    from True have all: "(\<forall>n\<in>blocks_set (b # bs). ok f c n out) \<longleftrightarrow> (\<forall>n\<in>blocks_set bs. ok f c n out)"
      by (auto simp: bs)
    have "run_blocks f c (b # bs) out = run_blocks f c bs (written f c {fst b..<snd b} out)"
      by (simp add: w)
    also have "\<dots> = (if \<forall>n\<in>blocks_set bs. ok f c n out
                      then Some (written f c (blocks_set (b # bs)) out) else None)"
      by (simp add: Cons.IH written_written bs)
    finally show ?thesis by (simp only: all)
  qed
qed

lemma sharding_blocks_set:
  assumes "is_sharding N bs"
  shows "blocks_set bs = {0..<N}"
proof -
  have "set (sort (concat (map block_indices bs))) = set [0..N - 1]"
    using assms by (simp add: is_sharding_def)
  then have "(\<Union>b\<in>set bs. {fst b..snd b - 1}) = {0..N - 1}"
    by (simp add: block_indices_def)
  moreover have "\<And>i j :: int. {i..j - 1} = {i..<j}" by auto
  ultimately show ?thesis by (simp add: blocks_set_def)
qed

subsection \<open>The loop over the outer dimensions\<close>

definition dims_agree :: "'a tensor \<Rightarrow> 'a tensor \<Rightarrow> 'a tensor \<Rightarrow> int \<Rightarrow> int \<Rightarrow> bool" where
  "dims_agree t p x ndim k \<longleftrightarrow>
     (\<forall>j. k \<le> j \<and> j < ndim - 1 \<longrightarrow> dim_size x j = dim_size t j \<and> dim_size p j = dim_size t j)"

lemma dims_agree_step:
  "k < ndim - 1 \<Longrightarrow>
   dims_agree t p x ndim k \<longleftrightarrow>
     dim_size x k = dim_size t k \<and> dim_size p k = dim_size t k \<and> dims_agree t p x ndim (k + 1)"
proof -
  assume k: "k < ndim - 1"
  have "\<And>j. k \<le> j \<longleftrightarrow> j = k \<or> k + 1 \<le> j" by auto
  with k show ?thesis unfolding dims_agree_def by (metis add_le_cancel_left zle_add1_eq_le zless_add1_eq order_refl)
qed


lemma outer_dims_eq:
  assumes "0 \<le> k" and "ndim = dims t"
  shows "outer_dims t p x ndim k sz =
     (if dims_agree t p x ndim k
      then Inr (sz * prod_list (drop (nat k) (butlast (shape t))))
      else Inl ''incompatible dimensions'')"
  using assms
proof (induction t p x ndim k sz rule: outer_dims.induct)
  case (1 t p x ndim k sz)
  show ?case
  proof (cases "k < ndim - 1")
    case False
    then have "dims_agree t p x ndim k" by (simp add: dims_agree_def)
    moreover from False "1.prems" have "drop (nat k) (butlast (shape t)) = []"
      by (simp add: dims_def)
    ultimately show ?thesis using False by (simp add: outer_dims.simps [of t p x ndim k sz])
  next
    case True
    note step = dims_agree_step [OF True, of t p x]
    show ?thesis
    proof (cases "dim_size x k = dim_size t k \<and> dim_size p k = dim_size t k")
      case False
      with True step show ?thesis
        by (auto simp: outer_dims.simps [of t p x ndim k sz] Let_def)
    next
      case eq: True
      have kl: "nat k < length (butlast (shape t))"
        using True "1.prems" by (simp add: dims_def)
      have "drop (nat k) (butlast (shape t)) = butlast (shape t) ! nat k # drop (Suc (nat k)) (butlast (shape t))"
        using kl by (simp add: Cons_nth_drop_Suc)
      moreover have "butlast (shape t) ! nat k = dim_size t k"
        using kl by (simp add: dim_size_def nth_butlast)
      moreover have "Suc (nat k) = nat (k + 1)" using "1.prems" by simp
      ultimately have pr: "prod_list (drop (nat k) (butlast (shape t)))
          = dim_size t k * prod_list (drop (nat (k + 1)) (butlast (shape t)))"
        by simp
      have "outer_dims t p x ndim k sz = outer_dims t p x ndim (k + 1) (sz * dim_size t k)"
        using True eq by (simp add: outer_dims.simps [of t p x ndim k sz] Let_def)
      also have "\<dots> = (if dims_agree t p x ndim (k + 1)
            then Inr (sz * dim_size t k * prod_list (drop (nat (k + 1)) (butlast (shape t))))
            else Inl ''incompatible dimensions'')"
        using "1.IH" [OF True refl] eq "1.prems" by simp
      finally show ?thesis using step eq by (simp add: pr mult.assoc)
    qed
  qed
qed

subsection \<open>The three branches of an iteration\<close>

definition readable :: "'a ptr \<Rightarrow> int \<Rightarrow> bool" where
  "readable q m \<longleftrightarrow> 0 \<le> snd q \<and> snd q + m \<le> int (length (fst q))"

definition pget :: "'a ptr \<Rightarrow> int \<Rightarrow> 'a" where
  "pget q i = fst q ! nat (snd q + i)"

lemma ptr_rd_readable:
  "readable q m \<Longrightarrow> 0 \<le> i \<Longrightarrow> i < m \<Longrightarrow> ptr_rd q i = Some (pget q i)"
  by (simp add: readable_def ptr_rd_def rd_def pget_def)

lemma search_sorted_interior:
  fixes val :: "'a::linorder fp"
  assumes r: "readable q m" and m: "1 \<le> m"
    and lo: "pget q 0 < val" and hi: "val < pget q (m - 1)"
  shows "\<exists>ind. search_sorted m q val = Some ind \<and> 1 \<le> ind \<and> ind \<le> m - 1
            \<and> \<not> val < pget q (ind - 1) \<and> val < pget q ind"
proof -
  from r m obtain h where h: "search_sorted m q val = Some h" "0 \<le> h" "h \<le> m"
    "h < m \<longrightarrow> (\<exists>v. ptr_rd q h = Some v \<and> val < v)"
    "0 < h \<longrightarrow> (\<exists>v. ptr_rd q (h - 1) = Some v \<and> \<not> val < v)"
    using search_sorted_inv [of q m val] by (auto simp: readable_def)
  have "h \<noteq> m"
  proof
    assume "h = m"
    with h(5) m have "\<exists>v. ptr_rd q (m - 1) = Some v \<and> \<not> val < v" by simp
    with ptr_rd_readable [OF r, of "m - 1"] m hi show False by auto
  qed
  with h(3) have hm: "h < m" by simp
  with h(4) ptr_rd_readable [OF r h(2)] have gt: "val < pget q h" by auto
  have "h \<noteq> 0"
  proof
    assume "h = 0"
    with gt lo have "val < val" by (auto intro: fp_less_trans)
    then show False by (simp add: fp_less_irrefl)
  qed
  with h(2) have hp: "1 \<le> h" by simp
  with h(5) hm ptr_rd_readable [OF r, of "h - 1"] have "\<not> val < pget q (h - 1)" by auto
  with h(1) hp hm gt show ?thesis by auto
qed

lemma point_low:
  assumes "readable (c_tk c) (n + 1)" and "0 \<le> n" and "1 \<le> c_M c"
    and "readable (c_xk c) (c_M c)" and "readable (c_yk c) (c_M c)"
    and "wrap f (c_flag c) (c_period c) (pget (c_tk c) n) \<le> pget (c_xk c) 0"
  shows "point f c n = Some (pget (c_yk c) 0, None, 0)"
  using assms
  by (simp add: point_def ptr_rd_readable [of "c_tk c" "n + 1"]
      ptr_rd_readable [of "c_xk c" "c_M c"] ptr_rd_readable [of "c_yk c" "c_M c"])

lemma point_high:
  assumes "readable (c_tk c) (n + 1)" and "0 \<le> n" and "1 \<le> c_M c"
    and "readable (c_xk c) (c_M c)" and "readable (c_yk c) (c_M c)"
    and "\<not> wrap f (c_flag c) (c_period c) (pget (c_tk c) n) \<le> pget (c_xk c) 0"
    and "wrap f (c_flag c) (c_period c) (pget (c_tk c) n) \<ge> pget (c_xk c) (c_M c - 1)"
  shows "point f c n = Some (pget (c_yk c) (c_M c - 1), None, c_M c + 1)"
  using assms
  by (simp add: point_def ptr_rd_readable [of "c_tk c" "n + 1"]
      ptr_rd_readable [of "c_xk c" "c_M c"] ptr_rd_readable [of "c_yk c" "c_M c"])

lemma point_interior:
  assumes "readable (c_tk c) (n + 1)" and "0 \<le> n" and "1 \<le> c_M c"
    and "readable (c_xk c) (c_M c)" and "readable (c_yk c) (c_M c)"
    and lo: "pget (c_xk c) 0 < wrap f (c_flag c) (c_period c) (pget (c_tk c) n)"
    and hi: "wrap f (c_flag c) (c_period c) (pget (c_tk c) n) < pget (c_xk c) (c_M c - 1)"
  shows "\<exists>ind. search_sorted (c_M c) (c_xk c) (wrap f (c_flag c) (c_period c) (pget (c_tk c) n)) = Some ind
           \<and> 1 \<le> ind \<and> ind \<le> c_M c - 1
           \<and> point f c n =
               Some (interior_v f
                       (interior_a f (wrap f (c_flag c) (c_period c) (pget (c_tk c) n))
                          (pget (c_xk c) (ind - 1)) (pget (c_xk c) ind))
                       (pget (c_yk c) (ind - 1)) (pget (c_yk c) ind),
                     Some (interior_a f (wrap f (c_flag c) (c_period c) (pget (c_tk c) n))
                             (pget (c_xk c) (ind - 1)) (pget (c_xk c) ind)),
                     ind)"
proof -
  let ?val = "wrap f (c_flag c) (c_period c) (pget (c_tk c) n)"
  from search_sorted_interior [OF assms(4) assms(3) lo hi]
  obtain ind where ind: "search_sorted (c_M c) (c_xk c) ?val = Some ind" "1 \<le> ind" "ind \<le> c_M c - 1"
    by auto
  have nlo: "\<not> ?val \<le> pget (c_xk c) 0" using lo by (rule fp_less_not_le)
  have nhi: "\<not> pget (c_xk c) (c_M c - 1) \<le> ?val" using hi by (rule fp_less_not_le)
  have rds: "ptr_rd (c_xk c) ind = Some (pget (c_xk c) ind)"
    "ptr_rd (c_xk c) (ind - 1) = Some (pget (c_xk c) (ind - 1))"
    "ptr_rd (c_yk c) ind = Some (pget (c_yk c) ind)"
    "ptr_rd (c_yk c) (ind - 1) = Some (pget (c_yk c) (ind - 1))"
    "ptr_rd (c_xk c) 0 = Some (pget (c_xk c) 0)"
    "ptr_rd (c_xk c) (c_M c - 1) = Some (pget (c_xk c) (c_M c - 1))"
    "ptr_rd (c_tk c) n = Some (pget (c_tk c) n)"
    using ind(2,3) assms(1-5)
    by (simp_all add: ptr_rd_readable [of "c_tk c" "n + 1"]
      ptr_rd_readable [of "c_xk c" "c_M c"] ptr_rd_readable [of "c_yk c" "c_M c"])
  have "point f c n =
      Some (interior_v f (interior_a f ?val (pget (c_xk c) (ind - 1)) (pget (c_xk c) ind))
              (pget (c_yk c) (ind - 1)) (pget (c_yk c) ind),
            Some (interior_a f ?val (pget (c_xk c) (ind - 1)) (pget (c_xk c) ind)),
            ind)"
    using nlo nhi ind(1) by (simp add: point_def rds Let_def)
  with ind show ?thesis by blast
qed

text \<open>A query that falls in one of the three branches is computed without a bad access.\<close>

lemma point_defined:
  assumes "readable (c_tk c) (n + 1)" and "0 \<le> n" and "1 \<le> c_M c"
    and "readable (c_xk c) (c_M c)" and "readable (c_yk c) (c_M c)"
    and "wrap f (c_flag c) (c_period c) (pget (c_tk c) n) \<le> pget (c_xk c) 0
         \<or> pget (c_xk c) (c_M c - 1) \<le> wrap f (c_flag c) (c_period c) (pget (c_tk c) n)
         \<or> (pget (c_xk c) 0 < wrap f (c_flag c) (c_period c) (pget (c_tk c) n)
            \<and> wrap f (c_flag c) (c_period c) (pget (c_tk c) n) < pget (c_xk c) (c_M c - 1))"
  shows "point f c n \<noteq> None"
proof (cases "wrap f (c_flag c) (c_period c) (pget (c_tk c) n) \<le> pget (c_xk c) 0")
  case True
  from point_low [OF assms(1-5) True] show ?thesis by simp
next
  case nlow: False
  show ?thesis
  proof (cases "pget (c_xk c) (c_M c - 1) \<le> wrap f (c_flag c) (c_period c) (pget (c_tk c) n)")
    case True
    from point_high [OF assms(1-5) nlow True] show ?thesis by simp
  next
    case False
    with nlow assms(6) have "pget (c_xk c) 0 < wrap f (c_flag c) (c_period c) (pget (c_tk c) n)"
      and "wrap f (c_flag c) (c_period c) (pget (c_tk c) n) < pget (c_xk c) (c_M c - 1)"
      by blast+
    from point_interior [OF assms(1-5) this] show ?thesis by auto
  qed
qed

subsection \<open>The loop over the rows\<close>

lemma row_mono:
  fixes k sz N :: int
  assumes "k < sz" and "0 \<le> N"
  shows "(k + 1) * N \<le> sz * N"
  using assms by (intro mult_right_mono) simp_all

lemma cell_index:
  fixes k sz N n :: int
  assumes "0 \<le> k" and "k < sz" and "0 \<le> n" and "n < N"
  shows "0 \<le> k * N + n" and "k * N + n < sz * N"
proof -
  from assms show "0 \<le> k * N + n" by simp
  have "k * N + n < (k + 1) * N" using assms by (simp add: algebra_simps)
  also have "\<dots> \<le> sz * N" using assms by (intro row_mono) simp_all
  finally show "k * N + n < sz * N" .
qed

lemma ok_cong_length:
  assumes "length (v_data o1) = length (v_data o2)" and "length (a_data o1) = length (a_data o2)"
    and "length (inds_data o1) = length (inds_data o2)"
  shows "ok f c n o1 = ok f c n o2"
  using assms by (simp add: ok_def in_buf_def)

lemma written_length [simp]:
  "length (v_data (written f c S out)) = length (v_data out)"
  "length (a_data (written f c S out)) = length (a_data out)"
  "length (inds_data (written f c S out)) = length (inds_data out)"
  by (simp_all add: written_def)

lemma written_nth:
  "j < length (v_data out) \<Longrightarrow>
     v_data (written f c S out) ! j = (if int j - c_vk c \<in> S then pt_v f c (int j - c_vk c) else v_data out ! j)"
  "j < length (a_data out) \<Longrightarrow>
     a_data (written f c S out) ! j =
       (if int j - c_ak c \<in> S
        then (case pt_a f c (int j - c_ak c) of None \<Rightarrow> a_data out ! j | Some w \<Rightarrow> w)
        else a_data out ! j)"
  "j < length (inds_data out) \<Longrightarrow>
     inds_data (written f c S out) ! j = (if int j - c_indsk c \<in> S then pt_inds f c (int j - c_indsk c) else inds_data out ! j)"
  by (simp_all add: written_def split: option.splits)

lemma row_body_written:
  assumes "is_sharding N (shard rt N (5 * M))" and "in_buf (flat p) k"
    and "\<forall>n. 0 \<le> n \<and> n < N \<longrightarrow> ok f (row_captures t p x y N M k (flat p ! nat k)) n out"
  shows "row_body f rt t p x y N M k out = Some (written f (row_captures t p x y N M k (flat p ! nat k)) {0..<N} out)"
proof -
  have "rd (flat p) k = Some (flat p ! nat k)"
    using assms(2) by (simp add: rd_def in_buf_def)
  moreover have "blocks_set (shard rt N (5 * M)) = {0..<N}"
    using assms(1) by (rule sharding_blocks_set)
  ultimately show ?thesis
    using assms(3) by (simp add: row_body_def run_blocks_written)
qed


lemma row_loop_written:
  assumes sh: "is_sharding N (shard rt N (5 * M))" and N: "0 \<le> N" and k: "0 \<le> k"
    and la: "length (a_data out) = length (v_data out)"
    and li: "length (inds_data out) = length (v_data out)"
    and lv: "int (length (v_data out)) = sz * N"
    and pk: "\<forall>k'. k \<le> k' \<and> k' < sz \<longrightarrow> in_buf (flat p) k'"
    and oks: "\<forall>k' n. k \<le> k' \<and> k' < sz \<and> 0 \<le> n \<and> n < N \<longrightarrow>
                 ok f (row_captures t p x y N M k' (flat p ! nat k')) n out"
  shows "\<exists>out'. row_loop f rt t p x y N M k sz out = Some out'
      \<and> length (v_data out') = length (v_data out)
      \<and> length (a_data out') = length (v_data out)
      \<and> length (inds_data out') = length (v_data out)
      \<and> (\<forall>j. j < length (v_data out) \<and> int j < k * N \<longrightarrow>
            v_data out' ! j = v_data out ! j \<and> a_data out' ! j = a_data out ! j
            \<and> inds_data out' ! j = inds_data out ! j)
      \<and> (\<forall>k' n. k \<le> k' \<and> k' < sz \<and> 0 \<le> n \<and> n < N \<longrightarrow>
            v_data out' ! nat (k' * N + n) = pt_v f (row_captures t p x y N M k' (flat p ! nat k')) n
            \<and> a_data out' ! nat (k' * N + n) =
                (case pt_a f (row_captures t p x y N M k' (flat p ! nat k')) n of
                   None \<Rightarrow> a_data out ! nat (k' * N + n) | Some w \<Rightarrow> w)
            \<and> inds_data out' ! nat (k' * N + n) = pt_inds f (row_captures t p x y N M k' (flat p ! nat k')) n)"
  using assms
proof (induction f rt t p x y N M k sz out rule: row_loop.induct)
  case (1 f rt t p x y N M k sz out)
  note sh' = "1.prems"(1) and N = "1.prems"(2) and k0 = "1.prems"(3)
    and la = "1.prems"(4) and li = "1.prems"(5) and lv = "1.prems"(6)
    and pk = "1.prems"(7) and oks = "1.prems"(8)
  show ?case
  proof (cases "k < sz")
    case False
    then have "row_loop f rt t p x y N M k sz out = Some out"
      by (simp add: row_loop.simps [of f rt t p x y N M k sz out])
    moreover from False have "\<And>k'. \<not> (k \<le> k' \<and> k' < sz)" by simp
    ultimately show ?thesis using la li by auto
  next
    case True
    let ?c = "\<lambda>k'. row_captures t p x y N M k' (flat p ! nat k')"
    define out1 where "out1 = written f (?c k) {0..<N} out"
    have body: "row_body f rt t p x y N M k out = Some out1"
      unfolding out1_def using True pk oks k0 by (intro row_body_written sh') auto
    have len1: "length (v_data out1) = length (v_data out)" "length (a_data out1) = length (v_data out)"
      "length (inds_data out1) = length (v_data out)"
      using la li by (simp_all add: out1_def)
    have offs: "c_vk (?c k) = k * N" "c_ak (?c k) = k * N" "c_indsk (?c k) = k * N"
      by (simp_all add: row_captures_def)
    have oks1: "\<forall>k' n. k + 1 \<le> k' \<and> k' < sz \<and> 0 \<le> n \<and> n < N \<longrightarrow> ok f (?c k') n out1"
    proof (intro allI impI)
      fix k' n assume a: "k + 1 \<le> k' \<and> k' < sz \<and> 0 \<le> n \<and> n < N"
      have "ok f (?c k') n out1 = ok f (?c k') n out"
        using len1 la li by (intro ok_cong_length) simp_all
      with a oks show "ok f (?c k') n out1" by simp
    qed
    have k1: "0 \<le> k + 1" using k0 by simp
    have pk1: "\<forall>k'. k + 1 \<le> k' \<and> k' < sz \<longrightarrow> in_buf (flat p) k'" using pk by simp
    have lv1: "int (length (v_data out1)) = sz * N" using lv len1 by simp
    have la1: "length (a_data out1) = length (v_data out1)" using len1 by simp
    have li1: "length (inds_data out1) = length (v_data out1)" using len1 by simp
    from "1.IH" [OF True body sh' N k1 la1 li1 lv1 pk1 oks1] len1
    obtain out' where o: "row_loop f rt t p x y N M (k + 1) sz out1 = Some out'"
      "length (v_data out') = length (v_data out)"
      "length (a_data out') = length (v_data out)"
      "length (inds_data out') = length (v_data out)"
      and frame: "\<And>j. j < length (v_data out) \<Longrightarrow> int j < (k + 1) * N \<Longrightarrow>
            v_data out' ! j = v_data out1 ! j \<and> a_data out' ! j = a_data out1 ! j
            \<and> inds_data out' ! j = inds_data out1 ! j"
      and rows: "\<And>k' n. k + 1 \<le> k' \<Longrightarrow> k' < sz \<Longrightarrow> 0 \<le> n \<Longrightarrow> n < N \<Longrightarrow>
            v_data out' ! nat (k' * N + n) = pt_v f (?c k') n
            \<and> a_data out' ! nat (k' * N + n) =
                (case pt_a f (?c k') n of None \<Rightarrow> a_data out1 ! nat (k' * N + n) | Some w \<Rightarrow> w)
            \<and> inds_data out' ! nat (k' * N + n) = pt_inds f (?c k') n"
      by auto
    have loop: "row_loop f rt t p x y N M k sz out = Some out'"
      using True body o(1) by (simp add: row_loop.simps [of f rt t p x y N M k sz out])
    have before: "v_data out1 ! j = v_data out ! j \<and> a_data out1 ! j = a_data out ! j
            \<and> inds_data out1 ! j = inds_data out ! j"
      if "j < length (v_data out)" "int j < k * N" for j
      using that la li by (simp add: out1_def written_nth offs)
    have fr: "v_data out' ! j = v_data out ! j \<and> a_data out' ! j = a_data out ! j
            \<and> inds_data out' ! j = inds_data out ! j"
      if j: "j < length (v_data out)" "int j < k * N" for j
    proof -
      have "k * N \<le> (k + 1) * N" using N by (simp add: algebra_simps)
      with j have "int j < (k + 1) * N" by simp
      from frame [OF j(1) this] before [OF j] show ?thesis by simp
    qed
    have rw: "v_data out' ! nat (k' * N + n) = pt_v f (?c k') n
            \<and> a_data out' ! nat (k' * N + n) =
                (case pt_a f (?c k') n of None \<Rightarrow> a_data out ! nat (k' * N + n) | Some w \<Rightarrow> w)
            \<and> inds_data out' ! nat (k' * N + n) = pt_inds f (?c k') n"
      if a: "k \<le> k'" "k' < sz" "0 \<le> n" "n < N" for k' n
    proof -
      have k'0: "0 \<le> k'" using a(1) k0 by simp
      from cell_index [OF k'0 a(2) a(3) a(4)]
      have idx: "0 \<le> k' * N + n" "k' * N + n < sz * N" .
      then have jl: "nat (k' * N + n) < length (v_data out)"
        using lv by simp
      show ?thesis
      proof (cases "k' = k")
        case True
        have "int (nat (k * N + n)) < (k + 1) * N"
          using idx a True by (simp add: algebra_simps)
        from frame [OF jl [unfolded True] this]
        have "v_data out' ! nat (k * N + n) = v_data out1 ! nat (k * N + n)"
          "a_data out' ! nat (k * N + n) = a_data out1 ! nat (k * N + n)"
          "inds_data out' ! nat (k * N + n) = inds_data out1 ! nat (k * N + n)"
          by simp_all
        moreover have "int (nat (k * N + n)) - k * N = n" using idx True by simp
        ultimately show ?thesis
          using jl a la li unfolding True
          by (simp add: out1_def written_nth offs)
      next
        case False
        with a have k1: "k + 1 \<le> k'" by simp
        have "(k + 1) * N \<le> k' * N" using k1 N by (intro mult_right_mono) simp_all
        then have "\<not> int (nat (k' * N + n)) - k * N < N"
          using idx a by (simp add: algebra_simps)
        then have "a_data out1 ! nat (k' * N + n) = a_data out ! nat (k' * N + n)"
          using jl la by (simp add: out1_def written_nth offs)
        with rows [OF k1 a(2) a(3) a(4)] show ?thesis by (simp split: option.splits)
      qed
    qed
    from loop o(2-4) fr rw show ?thesis by blast
  qed
qed

subsection \<open>\<open>Compute\<close> on valid inputs\<close>

lemma prod_list_nonneg: "list_all (\<lambda>d. 0 \<le> d) ds \<Longrightarrow> (0::int) \<le> prod_list ds"
  by (induction ds) simp_all

lemma list_all_butlast: "list_all P ds \<Longrightarrow> list_all P (butlast ds)"
  by (induction ds) simp_all

lemma prod_list_snoc: "ds \<noteq> [] \<Longrightarrow> prod_list ds = prod_list (butlast ds) * (last ds :: int)"
proof -
  assume "ds \<noteq> []"
  then have "ds = butlast ds @ [last ds]" by simp
  then have "prod_list ds = prod_list (butlast ds @ [last ds])" by simp
  then show ?thesis by simp
qed

lemma wf_length:
  assumes "wf_tensor T" and "shape T \<noteq> []"
  shows "int (length (flat T)) = batch_size T * row_len T" and "0 \<le> batch_size T" and "0 \<le> row_len T"
proof -
  from assms have all: "list_all (\<lambda>d. 0 \<le> d) (shape T)" by (simp add: wf_tensor_def)
  then show b: "0 \<le> batch_size T"
    unfolding batch_size_def by (intro prod_list_nonneg list_all_butlast)
  from all assms(2) show r: "0 \<le> row_len T"
    by (simp add: row_len_def list_all_iff)
  from assms(1) have "int (length (flat T)) = int (nat (prod_list (shape T)))"
    by (simp add: wf_tensor_def num_elements_def)
  also have "\<dots> = prod_list (shape T)" using prod_list_nonneg [OF all] by simp
  also have "\<dots> = batch_size T * row_len T"
    using prod_list_snoc [OF assms(2)] by (simp add: batch_size_def row_len_def)
  finally show "int (length (flat T)) = batch_size T * row_len T" .
qed

lemma dim_size_last: "shape T \<noteq> [] \<Longrightarrow> dim_size T (dims T - 1) = row_len T"
  by (simp add: dim_size_def dims_def row_len_def last_conv_nth nat_diff_distrib')

lemma valid_checks:
  assumes "valid_input t p x y"
  shows "1 \<le> dims t" and "dims p = dims t - 1" and "dims x = dims t" and "shape y = shape x"
    and "dims_agree t p x (dims t) 0"
proof -
  from assms have ne: "shape t \<noteq> []" "shape x \<noteq> []" and sp: "shape p = butlast (shape t)"
    and sx: "butlast (shape x) = butlast (shape t)" and sy: "shape y = shape x"
    by (simp_all add: valid_input_def)
  from ne show "1 \<le> dims t" by (cases "shape t") (simp_all add: dims_def)
  from sp ne show "dims p = dims t - 1" by (cases "shape t") (simp_all add: dims_def)
  have "length (shape x) - 1 = length (shape t) - 1" by (metis sx length_butlast)
  moreover have "0 < length (shape x)" "0 < length (shape t)" using ne by simp_all
  ultimately have "length (shape x) = length (shape t)" by arith
  then show dx: "dims x = dims t" by (simp add: dims_def)
  from sy show "shape y = shape x" .
  show "dims_agree t p x (dims t) 0"
    unfolding dims_agree_def
  proof (intro allI impI)
    fix j assume j: "0 \<le> j \<and> j < dims t - 1"
    then have "nat j < length (shape t) - 1" unfolding dims_def by arith
    then have jl: "nat j < length (butlast (shape t))" by simp
    then have "butlast (shape t) ! nat j = shape t ! nat j" by (simp add: nth_butlast)
    moreover from jl sx have "butlast (shape x) ! nat j = shape x ! nat j"
      by (metis nth_butlast)
    ultimately show "dim_size x j = dim_size t j \<and> dim_size p j = dim_size t j"
      using sx sp by (simp add: dim_size_def)
  qed
qed


lemma valid_readable:
  assumes v: "valid_input t p x y" and k: "0 \<le> k" "k < batch_size t" and n: "0 \<le> n" "n < row_len t"
  shows "readable (flat t, k * row_len t) (n + 1)"
    and "readable (flat x, k * row_len x) (row_len x)"
    and "readable (flat y, k * row_len x) (row_len x)"
    and "in_buf (flat p) k"
proof -
  from v have wf: "wf_tensor t" "wf_tensor p" "wf_tensor x" "wf_tensor y"
    and ne: "shape t \<noteq> []" "shape x \<noteq> []" and sp: "shape p = butlast (shape t)"
    and sx: "butlast (shape x) = butlast (shape t)" and sy: "shape y = shape x"
    by (simp_all add: valid_input_def)
  have bx: "batch_size x = batch_size t" using sx by (simp add: batch_size_def)
  have lt: "int (length (flat t)) = batch_size t * row_len t" using wf_length(1) [OF wf(1) ne(1)] .
  have lx: "int (length (flat x)) = batch_size t * row_len x" using wf_length(1) [OF wf(3) ne(2)] bx by simp
  have ly: "int (length (flat y)) = batch_size t * row_len x"
    using wf(4) wf(3) sy lx by (simp add: wf_tensor_def)
  have Mx: "0 \<le> row_len x" using wf_length(3) [OF wf(3) ne(2)] .
  from cell_index [OF k n] show "readable (flat t, k * row_len t) (n + 1)"
    using k n lt by (simp add: readable_def)
  have "(k + 1) * row_len x \<le> batch_size t * row_len x" using k(2) Mx by (rule row_mono)
  then have "k * row_len x + row_len x \<le> batch_size t * row_len x" by (simp add: algebra_simps)
  then show "readable (flat x, k * row_len x) (row_len x)"
    and "readable (flat y, k * row_len x) (row_len x)"
    using k Mx lx ly by (simp_all add: readable_def)
  have "list_all (\<lambda>d. 0 \<le> d) (shape p)" using wf(2) by (simp add: wf_tensor_def)
  from prod_list_nonneg [OF this] wf(2) have "int (length (flat p)) = batch_size t"
    by (simp add: wf_tensor_def num_elements_def batch_size_def sp)
  with k show "in_buf (flat p) k" by (simp add: in_buf_def)
qed

lemma allocate_nth: "j < num_elements shp \<Longrightarrow> allocate fresh shp ! j = fresh j"
  by (simp add: allocate_def)

lemma captures_view:
  "c_M (row_captures t p x y (row_len t) (row_len x) k (flat p ! nat k)) = row_len x"
  "wrap f (c_flag (row_captures t p x y (row_len t) (row_len x) k (flat p ! nat k)))
        (c_period (row_captures t p x y (row_len t) (row_len x) k (flat p ! nat k)))
        (pget (c_tk (row_captures t p x y (row_len t) (row_len x) k (flat p ! nat k))) n)
     = wrapped f t p k n"
  "c_xk (row_captures t p x y (row_len t) (row_len x) k (flat p ! nat k)) = (flat x, k * row_len x)"
  "c_yk (row_captures t p x y (row_len t) (row_len x) k (flat p ! nat k)) = (flat y, k * row_len x)"
  by (simp_all add: row_captures_def wrapped_def pget_def cell_def)

lemma pget_cell:
  "pget (flat x, k * row_len x) i = cell x k i"
  "shape y = shape x \<Longrightarrow> pget (flat y, k * row_len x) i = cell y k i"
  by (simp_all add: pget_def cell_def row_len_def)

lemma classified_cell:
  assumes "classified f t p x" and "0 \<le> k" and "k < batch_size t" and "0 \<le> n" and "n < row_len t"
  shows "wrapped f t p k n \<le> cell x k 0
         \<or> cell x k (row_len x - 1) \<le> wrapped f t p k n
         \<or> (cell x k 0 < wrapped f t p k n \<and> wrapped f t p k n < cell x k (row_len x - 1))"
proof -
  from assms(2-5) have "k \<in> set [0..batch_size t - 1]" and "n \<in> set [0..row_len t - 1]"
    by simp_all
  with assms(1) show ?thesis
    unfolding classified_def list_all_iff by blast
qed

lemma valid_point_readable:
  assumes v: "valid_input t p x y" and k: "0 \<le> k" "k < batch_size t" and n: "0 \<le> n" "n < row_len t"
  shows "readable (c_tk (row_captures t p x y (row_len t) (row_len x) k (flat p ! nat k))) (n + 1)"
    and "1 \<le> c_M (row_captures t p x y (row_len t) (row_len x) k (flat p ! nat k))"
    and "readable (c_xk (row_captures t p x y (row_len t) (row_len x) k (flat p ! nat k)))
           (c_M (row_captures t p x y (row_len t) (row_len x) k (flat p ! nat k)))"
    and "readable (c_yk (row_captures t p x y (row_len t) (row_len x) k (flat p ! nat k)))
           (c_M (row_captures t p x y (row_len t) (row_len x) k (flat p ! nat k)))"
  using valid_readable(1-3) [OF v k n] v
  by (simp_all add: row_captures_def valid_input_def row_len_def)

lemma Compute_valid:
  assumes v: "valid_input t p x y" and cl: "classified f t p x"
    and sh: "is_sharding (row_len t) (shard rt (row_len t) (5 * row_len x))"
  shows "\<exists>tv ta ti. Compute f rt t p x y =
             Some \<lparr>ctx_status = OK, output_v = Some tv, output_a = Some ta, output_inds = Some ti\<rparr>
      \<and> shape tv = shape t \<and> shape ta = shape t \<and> shape ti = shape t
      \<and> length (flat tv) = num_elements (shape t) \<and> length (flat ta) = num_elements (shape t)
      \<and> length (flat ti) = num_elements (shape t)
      \<and> (\<forall>k n. 0 \<le> k \<and> k < batch_size t \<and> 0 \<le> n \<and> n < row_len t \<longrightarrow>
            cell tv k n = pt_v f (row_captures t p x y (row_len t) (row_len x) k (flat p ! nat k)) n
            \<and> cell ta k n =
                (case pt_a f (row_captures t p x y (row_len t) (row_len x) k (flat p ! nat k)) n of
                   None \<Rightarrow> fresh_a rt (nat (k * row_len t + n)) | Some w \<Rightarrow> w)
            \<and> cell ti k n = pt_inds f (row_captures t p x y (row_len t) (row_len x) k (flat p ! nat k)) n)"
proof -
  let ?N = "row_len t" and ?M = "row_len x" and ?B = "batch_size t"
  let ?c = "\<lambda>k. row_captures t p x y ?N ?M k (flat p ! nat k)"
  define out0 where "out0 = \<lparr>v_data = allocate (fresh_v rt) (shape t),
                         a_data = allocate (fresh_a rt) (shape t),
                         inds_data = allocate (fresh_inds rt) (shape t)\<rparr>"
  from v have wf: "wf_tensor t" and ne: "shape t \<noteq> []" "shape x \<noteq> []" and M1: "1 \<le> ?M"
    by (simp_all add: valid_input_def row_len_def)
  note chk = valid_checks [OF v]
  have od: "outer_dims t p x (dims t) 0 1 = Inr ?B"
    using chk(5) by (simp add: outer_dims_eq batch_size_def)
  have N: "dim_size t (dims t - 1) = ?N" using ne(1) by (rule dim_size_last)
  have M: "dim_size x (dims t - 1) = ?M" using dim_size_last [OF ne(2)] chk(3) by simp
  have lt: "int (length (flat t)) = ?B * ?N" and B0: "0 \<le> ?B" and N0: "0 \<le> ?N"
    using wf_length [OF wf ne(1)] by simp_all
  have ne_t: "int (num_elements (shape t)) = ?B * ?N"
    using wf lt by (simp add: wf_tensor_def)
  have len0: "length (v_data out0) = num_elements (shape t)" "length (a_data out0) = num_elements (shape t)"
    "length (inds_data out0) = num_elements (shape t)"
    by (simp_all add: out0_def allocate_def)
  have pk: "\<forall>k'. 0 \<le> k' \<and> k' < ?B \<longrightarrow> in_buf (flat p) k'"
  proof (cases "0 < ?N")
    case True
    then show ?thesis using valid_readable(4) [OF v, of _ 0] by simp
  next
    case False
    from v have "wf_tensor p" and sp: "shape p = butlast (shape t)" by (simp_all add: valid_input_def)
    then have "list_all (\<lambda>d. 0 \<le> d) (shape p)" by (simp add: wf_tensor_def)
    from prod_list_nonneg [OF this] \<open>wf_tensor p\<close> have "int (length (flat p)) = ?B"
      by (simp add: wf_tensor_def num_elements_def batch_size_def sp)
    then show ?thesis by (simp add: in_buf_def)
  qed
  have oks: "\<forall>k' n. 0 \<le> k' \<and> k' < ?B \<and> 0 \<le> n \<and> n < ?N \<longrightarrow> ok f (?c k') n out0"
  proof (intro allI impI)
    fix k n assume a: "0 \<le> k \<and> k < ?B \<and> 0 \<le> n \<and> n < ?N"
    then have k: "0 \<le> k" "k < ?B" and n: "0 \<le> n" "n < ?N" by simp_all
    from v have sy: "shape y = shape x" by (simp add: valid_input_def)
    note view = captures_view pget_cell(1) pget_cell(2) [OF sy]
    note r = valid_point_readable [OF v k n]
    have "point f (?c k) n \<noteq> None"
      by (rule point_defined [OF r(1) n(1) r(2-4), unfolded view]) (rule classified_cell [OF cl k n])
    moreover from cell_index [OF k n] have "in_buf (v_data out0) (k * ?N + n)"
      "in_buf (a_data out0) (k * ?N + n)" "in_buf (inds_data out0) (k * ?N + n)"
      using len0 ne_t by (simp_all add: in_buf_def)
    ultimately show "ok f (?c k) n out0" by (simp add: ok_def row_captures_def)
  qed
  from row_loop_written [where f = f and t = t and p = p and x = x and y = y and k = 0
      and out = out0 and sz = ?B, OF sh N0] len0 ne_t pk oks
  obtain out' where o: "row_loop f rt t p x y ?N ?M 0 ?B out0 = Some out'"
    "length (v_data out') = num_elements (shape t)"
    "length (a_data out') = num_elements (shape t)"
    "length (inds_data out') = num_elements (shape t)"
    and rows: "\<And>k n. 0 \<le> k \<Longrightarrow> k < ?B \<Longrightarrow> 0 \<le> n \<Longrightarrow> n < ?N \<Longrightarrow>
            v_data out' ! nat (k * ?N + n) = pt_v f (?c k) n
            \<and> a_data out' ! nat (k * ?N + n) =
                (case pt_a f (?c k) n of None \<Rightarrow> a_data out0 ! nat (k * ?N + n) | Some w \<Rightarrow> w)
            \<and> inds_data out' ! nat (k * ?N + n) = pt_inds f (?c k) n"
    by auto
  have cmp: "Compute f rt t p x y =
      Some \<lparr>ctx_status = OK,
            output_v = Some \<lparr>shape = shape t, flat = v_data out'\<rparr>,
            output_a = Some \<lparr>shape = shape t, flat = a_data out'\<rparr>,
            output_inds = Some \<lparr>shape = shape t, flat = inds_data out'\<rparr>\<rparr>"
    using chk(1-4) od o(1) by (simp add: Compute_def Let_def N M out0_def)
  have cells: "cell \<lparr>shape = shape t, flat = v_data out'\<rparr> k n = pt_v f (?c k) n
      \<and> cell \<lparr>shape = shape t, flat = a_data out'\<rparr> k n =
           (case pt_a f (?c k) n of None \<Rightarrow> fresh_a rt (nat (k * ?N + n)) | Some w \<Rightarrow> w)
      \<and> cell \<lparr>shape = shape t, flat = inds_data out'\<rparr> k n = pt_inds f (?c k) n"
    if a: "0 \<le> k \<and> k < ?B \<and> 0 \<le> n \<and> n < ?N" for k n
  proof -
    from a have k: "0 \<le> k" "k < ?B" and n: "0 \<le> n" "n < ?N" by simp_all
    from cell_index [OF k n] ne_t have "nat (k * ?N + n) < num_elements (shape t)" by simp
    then have "a_data out0 ! nat (k * ?N + n) = fresh_a rt (nat (k * ?N + n))"
      by (simp add: out0_def allocate_nth)
    with rows [OF k n] show ?thesis
      by (simp add: cell_def row_len_def split: option.splits)
  qed
  show ?thesis
    using cmp o(2-4) cells
    by (intro exI [of _ "\<lparr>shape = shape t, flat = v_data out'\<rparr>"]
        exI [of _ "\<lparr>shape = shape t, flat = a_data out'\<rparr>"]
        exI [of _ "\<lparr>shape = shape t, flat = inds_data out'\<rparr>"]) simp
qed

subsection \<open>The examples, evaluated\<close>

lemma grid52_monotone: "monotone_rounding grid52"
  unfolding monotone_rounding_def grid52_def
proof (intro allI impI)
  fix a b :: rat
  assume "a \<le> b"
  then have "\<lfloor>a * 2 ^ 52 + 1 / 2\<rfloor> \<le> \<lfloor>b * 2 ^ 52 + 1 / 2\<rfloor>"
    by (intro floor_mono) simp
  then have "(of_int \<lfloor>a * 2 ^ 52 + 1 / 2\<rfloor> :: rat) / 2 ^ 52 \<le> of_int \<lfloor>b * 2 ^ 52 + 1 / 2\<rfloor> / 2 ^ 52"
    by (simp add: divide_right_mono)
  then show "Fin (of_int \<lfloor>a * 2 ^ 52 + 1 / 2\<rfloor> / 2 ^ 52) \<le> Fin (of_int \<lfloor>b * 2 ^ 52 + 1 / 2\<rfloor> / 2 ^ 52 :: rat)"
    by simp
qed

lemma grid52_int: "representable grid52 (of_int i)"
proof -
  have "(of_int i :: rat) * 2 ^ 52 + 1 / 2 = of_int (i * 2 ^ 52) + 1 / 2" by simp
  moreover have "\<lfloor>of_int (i * 2 ^ 52) + (1 / 2 :: rat)\<rfloor> = i * 2 ^ 52"
    by (rule floor_unique) simp_all
  ultimately show ?thesis by (simp add: representable_def grid52_def)
qed

lemma grid_arith_rounding:
  "monotone_rounding (rnd grid_arith)" "representable (rnd grid_arith) 0"
  "representable (rnd grid_arith) 2"
  using grid52_monotone grid52_int [of 0] grid52_int [of 2] by (simp_all add: grid_arith_def)

lemma grid_arith_exact: "exact_on grid_arith [0, 1 / 2, 1, 5, 10, 15, 25]"
  by code_simp

lemma scenario_valid: "valid_input scenario_t scenario_p scenario_x scenario_y"
  by code_simp

lemma periodic_valid: "valid_input periodic_t periodic_p periodic_x periodic_y"
  by code_simp

lemma scenario_dims:
  "row_len scenario_t = 7" "row_len scenario_x = 4" "batch_size scenario_t = 1"
  "shape scenario_t = [7]" "flat scenario_p ! 0 = Fin 0"
  by (simp_all add: row_len_def batch_size_def scenario_t_def scenario_x_def scenario_p_def)

lemma periodic_dims:
  "row_len periodic_t = 3" "row_len periodic_x = 3" "batch_size periodic_t = 1"
  by (simp_all add: row_len_def batch_size_def periodic_t_def periodic_x_def)

lemma scenario_classified: "classified f scenario_t scenario_p scenario_x"
  by (simp add: classified_def wrapped_def wrap_def cell_def row_len_def batch_size_def
      scenario_t_def scenario_p_def scenario_x_def upto.simps)

lemma periodic_classified: "classified grid_arith periodic_t periodic_p periodic_x"
  by code_simp

lemma list7:
  assumes "length xs = 7"
  shows "xs = [xs ! 0, xs ! 1, xs ! 2, xs ! 3, xs ! 4, xs ! 5, xs ! 6]"
proof -
  have "xs = map ((!) xs) [0..<length xs]" by (simp add: map_nth)
  also have "[0..<length xs] = [0, 1, 2, 3, 4, 5, 6]"
    unfolding assms by (simp add: upt_rec)
  finally show ?thesis by simp
qed

lemma scenario_points:
  assumes "exact_on f [0, 1 / 2, 1, 5, 10, 15, 25]"
  shows
  "point f (row_captures scenario_t scenario_p scenario_x scenario_y 7 4 0 (Fin 0)) 0 = Some (Fin 0, None, 0)"
  "point f (row_captures scenario_t scenario_p scenario_x scenario_y 7 4 0 (Fin 0)) 1 = Some (Fin 0, None, 0)"
  "point f (row_captures scenario_t scenario_p scenario_x scenario_y 7 4 0 (Fin 0)) 2 = Some (Fin 5, Some (Fin (1 / 2)), 1)"
  "point f (row_captures scenario_t scenario_p scenario_x scenario_y 7 4 0 (Fin 0)) 3 = Some (Fin 10, Some (Fin 0), 2)"
  "point f (row_captures scenario_t scenario_p scenario_x scenario_y 7 4 0 (Fin 0)) 4 = Some (Fin 25, Some (Fin (1 / 2)), 3)"
  "point f (row_captures scenario_t scenario_p scenario_x scenario_y 7 4 0 (Fin 0)) 5 = Some (Fin 30, None, 5)"
  "point f (row_captures scenario_t scenario_p scenario_x scenario_y 7 4 0 (Fin 0)) 6 = Some (Fin 30, None, 5)"
proof -
  from assms have ex: "rnd f 0 = Fin 0" "rnd f (1 / 2) = Fin (1 / 2)" "rnd f 1 = Fin 1"
    "rnd f 5 = Fin 5" "rnd f 10 = Fin 10" "rnd f 15 = Fin 15" "rnd f 25 = Fin 25"
    "rnd_wide f 0 = Fin 0" "rnd_wide f (1 / 2) = Fin (1 / 2)" "rnd_wide f 1 = Fin 1"
    "rnd_wide f 5 = Fin 5" "rnd_wide f 10 = Fin 10" "rnd_wide f 15 = Fin 15" "rnd_wide f 25 = Fin 25"
    by (simp_all add: exact_on_def)
  note defs = point_def row_captures_def scenario_t_def scenario_x_def scenario_y_def wrap_def
    ptr_rd_def rd_def search_sorted_def search_loop.simps probe_of_def signed_divide_int_def
    interior_a_def interior_v_def fsub_def Let_def
  show "point f (row_captures scenario_t scenario_p scenario_x scenario_y 7 4 0 (Fin 0)) 0 = Some (Fin 0, None, 0)"
    by (simp add: defs ex)
  show "point f (row_captures scenario_t scenario_p scenario_x scenario_y 7 4 0 (Fin 0)) 1 = Some (Fin 0, None, 0)"
    by (simp add: defs ex)
  show "point f (row_captures scenario_t scenario_p scenario_x scenario_y 7 4 0 (Fin 0)) 2 = Some (Fin 5, Some (Fin (1 / 2)), 1)"
    by (simp add: defs ex)
  show "point f (row_captures scenario_t scenario_p scenario_x scenario_y 7 4 0 (Fin 0)) 3 = Some (Fin 10, Some (Fin 0), 2)"
    by (simp add: defs ex)
  show "point f (row_captures scenario_t scenario_p scenario_x scenario_y 7 4 0 (Fin 0)) 4 = Some (Fin 25, Some (Fin (1 / 2)), 3)"
    by (simp add: defs ex)
  show "point f (row_captures scenario_t scenario_p scenario_x scenario_y 7 4 0 (Fin 0)) 5 = Some (Fin 30, None, 5)"
    by (simp add: defs ex)
  show "point f (row_captures scenario_t scenario_p scenario_x scenario_y 7 4 0 (Fin 0)) 6 = Some (Fin 30, None, 5)"
    by (simp add: defs ex)
qed

lemma scenario_three_blocks:
  "is_sharding (row_len scenario_t) (shard three_blocks (row_len scenario_t) (5 * row_len scenario_x))"
  by code_simp

lemma periodic_three_blocks:
  "is_sharding (row_len periodic_t) (shard three_blocks (row_len periodic_t) (5 * row_len periodic_x))"
  by code_simp

text \<open>
  The periodic row in the example format: \<open>2.5\<close> and \<open>-0.5\<close> wrap to \<open>0.5\<close> and \<open>1.5\<close>;
  \<open>-2\<^sup>-\<^sup>6\<^sup>0\<close> wraps to \<open>0\<close>, since \<open>2 - 2\<^sup>-\<^sup>6\<^sup>0\<close> rounds to \<open>2\<close>, and is clamped to
  the first knot.
\<close>

lemma periodic_eval:
  "Compute grid_arith three_blocks periodic_t periodic_p periodic_x periodic_y =
     Some \<lparr>ctx_status = OK,
           output_v = Some \<lparr>shape = [1, 3], flat = [Fin (1 / 2), Fin (3 / 2), Fin 0]\<rparr>,
           output_a = Some \<lparr>shape = [1, 3], flat = [Fin (1 / 2), Fin (1 / 2), Fin (- 9)]\<rparr>,
           output_inds = Some \<lparr>shape = [1, 3], flat = [1, 2, 0]\<rparr>\<rparr>"
  by code_simp

section \<open>The claims of the specification\<close>

subsection \<open>The bounded search\<close>

text \<open>
  C10. \<^verbatim>\<open>search_sorted\<close> returns for every length \<open>N\<close>. The loop is the total function
  \<open>search_loop\<close>, whose termination is proved with the measure \<open>high - low\<close>; the
  theorem states what that proof rests on and what it gives. For \<open>N = 0\<close> the result is
  \<open>0\<close> whatever the buffer is, the empty one included, so nothing is read. For a pointer
  to at least \<open>N\<close> elements (also for a negative \<open>N\<close>) the call returns an index and
  every read stays inside the buffer. In each iteration the probe lies strictly between
  \<open>low\<close> and \<open>high\<close>, so both possible next pairs have a distance that is at least
  \<open>1\<close> and strictly smaller than before.
\<close>

theorem search_sorted_terminates:
  "search_sorted 0 x val = Some 0
   \<and> (0 \<le> snd x \<and> snd x + N \<le> int (length (fst x)) \<longrightarrow> (\<exists>h. search_sorted N x val = Some h))
   \<and> (1 < high - low \<longrightarrow>
        low < probe_of low high \<and> probe_of low high < high
        \<and> 1 \<le> probe_of low high - low \<and> probe_of low high - low < high - low
        \<and> 1 \<le> high - probe_of low high \<and> high - probe_of low high < high - low)"
proof (intro conjI impI)
  show "search_sorted 0 x val = Some 0"
    by (simp add: search_sorted_def search_loop_done)
next
  assume a: "0 \<le> snd x \<and> snd x + N \<le> int (length (fst x))"
  show "\<exists>h. search_sorted N x val = Some h"
  proof (cases "0 \<le> N")
    case True
    with a search_sorted_inv [of x N val] show ?thesis by blast
  next
    case False
    then show ?thesis by (simp add: search_sorted_def search_loop_done)
  qed
next
  assume "1 < high - low"
  from probe_of_between [OF this]
  show "low < probe_of low high" "probe_of low high < high"
    "1 \<le> probe_of low high - low" "probe_of low high - low < high - low"
    "1 \<le> high - probe_of low high" "high - probe_of low high < high - low"
    by simp_all
qed


theorem search_sorted_terminates_witness:
  "search_sorted 0 ([0, 1, 2, 3 :: rat], 0) 1 = Some 0
   \<and> (0::int) \<le> snd ([0, 1, 2, 3 :: rat], 0) \<and> snd ([0, 1, 2, 3 :: rat], 0) + 4 \<le> int (length (fst ([0, 1, 2, 3 :: rat], 0::int)))
   \<and> (\<exists>h. search_sorted 4 ([0, 1, 2, 3 :: rat], 0) 1 = Some h)
   \<and> (1::int) < 4 - (- 1)
   \<and> - 1 < probe_of (- 1) 4 \<and> probe_of (- 1) 4 < 4
   \<and> 1 \<le> probe_of (- 1) 4 - (- 1) \<and> probe_of (- 1) 4 - (- 1) < 4 - (- 1)
   \<and> 1 \<le> 4 - probe_of (- 1) 4 \<and> 4 - probe_of (- 1) 4 < 4 - (- 1)"
  using search_sorted_terminates [where x = "([0, 1, 2, 3 :: rat], 0)" and val = 1 and N = 4 and low = "- 1" and high = 4]
  by simp


text \<open>
  C2. For an array \<open>xs\<close> of length \<open>M \<ge> 2\<close> in strictly ascending order, which is
  what the specification requires of the knots, and a value strictly between \<open>xs[0]\<close>
  and \<open>xs[M-1]\<close>, \<^verbatim>\<open>search_sorted(M, xs, value)\<close> returns the smallest index \<open>i\<close> in
  \<open>[1, M-1]\<close> with \<open>xs[i] > value\<close>: the knot at \<open>i\<close> is greater than the value and
  every knot before \<open>i\<close> is at most the value. A value equal to an interior knot \<open>xs[j]\<close>
  gets the index \<open>j + 1\<close>. The elements are values of \<open>T\<close>, infinities included; a
  strictly ascending array of two or more elements holds no NaN, and neither is the value
  one, being strictly between two knots.
\<close>

theorem search_sorted_least:
  fixes xs :: "'a::linorder fp list"
  assumes srt: "sorted_wrt (<) xs" and len: "2 \<le> length xs"
    and lo: "xs ! 0 < val" and hi: "val < xs ! (length xs - 1)"
  shows "\<exists>i. search_sorted (int (length xs)) (xs, 0) val = Some (int i)
           \<and> 1 \<le> i \<and> i \<le> length xs - 1 \<and> val < xs ! i
           \<and> (\<forall>j<i. xs ! j \<le> val \<and> \<not> val < xs ! j)
           \<and> (\<forall>j. 0 < j \<and> j < length xs - 1 \<and> xs ! j = val \<longrightarrow> i = j + 1)"
proof -
  have rd: "readable (xs, 0) (int (length xs))" by (simp add: readable_def)
  have pg: "pget (xs, 0) (int j) = xs ! j" for j by (simp add: pget_def)
  have "pget (xs, 0) 0 < val" and "val < pget (xs, 0) (int (length xs) - 1)"
    using lo hi len by (simp_all add: pget_def nat_diff_distrib')
  with search_sorted_interior [OF rd, of val] len
  obtain h where h: "search_sorted (int (length xs)) (xs, 0) val = Some h"
    "1 \<le> h" "h \<le> int (length xs) - 1"
    "\<not> val < pget (xs, 0) (h - 1)" "val < pget (xs, 0) h"
    by auto
  define i where "i = nat h"
  have hi_eq: "h = int i" using h(2) by (simp add: i_def)
  have i_pos: "1 \<le> i" and i_lt: "i < length xs" using h(2,3) by (simp_all add: i_def)
  have gt: "val < xs ! i" using h(5) by (simp add: hi_eq pg)
  have "h - 1 = int (i - 1)" using i_pos by (simp add: hi_eq)
  with h(4) have prev: "\<not> val < xs ! (i - 1)" by (simp add: pg)
  have mono: "xs ! a < xs ! b" if "a < b" "b < length xs" for a b
    using srt that by (simp add: sorted_wrt_iff_nth_less)
  have val_num: "val \<noteq> NaN" using lo by (rule fp_less_numbers)
  have below: "xs ! j \<le> val \<and> \<not> val < xs ! j" if "j < i" for j
  proof -
    have n: "\<not> val < xs ! j"
    proof (cases "j = i - 1")
      case True
      with prev show ?thesis by simp
    next
      case False
      with that have "j < i - 1" by simp
      with i_lt have "xs ! j < xs ! (i - 1)" by (intro mono) simp_all
      with prev show ?thesis by (blast intro: fp_less_trans)
    qed
    from that i_lt have "xs ! j < xs ! i" by (intro mono)
    then have "xs ! j \<noteq> NaN" by (rule fp_less_numbers)
    with val_num n have "xs ! j \<le> val" by (intro fp_not_less_le)
    then show ?thesis using n by (rule conjI)
  qed
  have tie: "i = j + 1" if j: "0 < j \<and> j < length xs - 1 \<and> xs ! j = val" for j
  proof -
    have ji: "j < i"
    proof (rule ccontr)
      assume "\<not> j < i"
      then have "i = j \<or> i < j" by auto
      then show False
      proof
        assume "i = j"
        with gt j show False by (simp add: fp_less_irrefl)
      next
        assume "i < j"
        moreover from j have "j < length xs" by arith
        ultimately have "xs ! i < xs ! j" by (rule mono)
        with gt j have "val < val" by (blast intro: fp_less_trans)
        then show False by (simp add: fp_less_irrefl)
      qed
    qed
    from j have "j + 1 < length xs" by arith
    with mono [of j "j + 1"] j have "val < xs ! (j + 1)" by simp
    with below [of "j + 1"] have "\<not> j + 1 < i" by blast
    with ji show "i = j + 1" by simp
  qed
  show ?thesis
    using h(1) i_pos i_lt gt below tie by (intro exI [of _ i]) (simp add: hi_eq)
qed

theorem search_sorted_least_witness:
  "sorted_wrt (<) (map Fin [0, 1, 2, 3 :: rat]) \<and> 2 \<le> length (map Fin [0, 1, 2, 3 :: rat])
   \<and> map Fin [0, 1, 2, 3 :: rat] ! 0 < Fin 1
   \<and> Fin 1 < map Fin [0, 1, 2, 3 :: rat] ! (length (map Fin [0, 1, 2, 3 :: rat]) - 1)
   \<and> (0::nat) < 1 \<and> (1::nat) < length (map Fin [0, 1, 2, 3 :: rat]) - 1
   \<and> map Fin [0, 1, 2, 3 :: rat] ! 1 = Fin 1
   \<and> search_sorted (int (length (map Fin [0, 1, 2, 3 :: rat]))) (map Fin [0, 1, 2, 3 :: rat], 0) (Fin 1)
       = Some (int (1 + 1))"
proof -
  have h: "sorted_wrt (<) (map Fin [0, 1, 2, 3 :: rat])" "2 \<le> length (map Fin [0, 1, 2, 3 :: rat])"
    "map Fin [0, 1, 2, 3 :: rat] ! 0 < Fin 1"
    "Fin 1 < map Fin [0, 1, 2, 3 :: rat] ! (length (map Fin [0, 1, 2, 3 :: rat]) - 1)"
    by simp_all
  have j: "(0::nat) < 1 \<and> (1::nat) < length (map Fin [0, 1, 2, 3 :: rat]) - 1
      \<and> map Fin [0, 1, 2, 3 :: rat] ! 1 = Fin 1"
    by simp
  from search_sorted_least [OF h] j
  have "search_sorted (int (length (map Fin [0, 1, 2, 3 :: rat]))) (map Fin [0, 1, 2, 3 :: rat], 0) (Fin 1)
       = Some (int (1 + 1))"
    by blast
  with h j show ?thesis by (intro conjI) simp_all
qed

subsection \<open>The periodic wrap\<close>




text \<open>
  C9 (amended). For a period \<open>> 0\<close>, wrapping a wrapped value returns the same value of
  \<open>T\<close>, for every query value and every period, infinite ones and NaN included. The
  comparison \<^verbatim>\<open>wrap(wrap(value, period), period) == wrap(value, period)\<close> of the
  code's \<open>T\<close> is true exactly when the wrapped value is a number, which it is for every
  finite value with a finite period, and for every finite value \<open>\<ge> 0\<close> with the
  period \<open>+\<infinity>\<close>. Otherwise the wrapped value is NaN, which wraps to NaN and compares
  unequal to itself.
\<close>

theorem wrap_idempotent:
  fixes per val :: "'a::floor_ceiling fp"
  assumes mono: "monotone_rounding (rnd f)" and r0: "representable (rnd f) 0"
    and rq: "\<forall>q. per = Fin q \<longrightarrow> representable (rnd f) q"
    and per: "Fin 0 < per"
  shows "wrap f (Fin 0 < per) per (wrap f (Fin 0 < per) per val) = wrap f (Fin 0 < per) per val
         \<and> (feq (wrap f (Fin 0 < per) per (wrap f (Fin 0 < per) per val)) (wrap f (Fin 0 < per) per val)
              \<longleftrightarrow> wrap f (Fin 0 < per) per val \<noteq> NaN)
         \<and> (\<forall>r. val = Fin r \<and> (per = PInf \<longrightarrow> 0 \<le> r) \<longrightarrow> wrap f (Fin 0 < per) per val \<noteq> NaN)"
proof -
  define w where "w = wrap f True per val"
  have idem: "wrap f True per w = w"
  proof (cases "w = NaN")
    case True
    then show ?thesis by (cases per) (simp_all add: wrap_def)
  next
    case False
    from wrap_not_NaN [OF mono r0 rq per False [unfolded w_def]]
    obtain u where u: "w = Fin u" "0 \<le> u" "Fin u < per" by (auto simp: w_def)
    show ?thesis
    proof (cases per)
      case (Fin q)
      with u have "u < q" by simp
      with u(2) have "trunc_rem u q = u" by (rule trunc_rem_small)
      with u Fin per show ?thesis by (simp add: wrap_def)
    next
      case PInf
      with u show ?thesis by (simp add: wrap_nonneg_infinite)
    qed (use per in simp_all)
  qed
  have num: "w \<noteq> NaN" if "val = Fin r \<and> (per = PInf \<longrightarrow> 0 \<le> r)" for r
  proof (cases per)
    case (Fin q)
    with per have q0: "0 < q" by simp
    from rq Fin have "representable (rnd f) q" by simp
    from wrap_finite [OF mono r0 this q0, of r] that Fin show ?thesis by (auto simp: w_def)
  next
    case PInf
    with that show ?thesis by (simp add: w_def wrap_nonneg_infinite)
  qed (use per in simp_all)
  from idem num show ?thesis
    using per by (simp add: w_def feq_def)
qed

theorem wrap_idempotent_witness:
  "monotone_rounding (rnd grid_arith) \<and> representable (rnd grid_arith) 0
   \<and> representable (rnd grid_arith) 2 \<and> Fin 0 < (Fin 2 :: rat fp)
   \<and> wrap grid_arith (Fin 0 < (Fin 2 :: rat fp)) (Fin 2) (Fin (- (7 / 2))) = Fin (1 / 2)
   \<and> wrap grid_arith (Fin 0 < (Fin 2 :: rat fp)) (Fin 2)
        (wrap grid_arith (Fin 0 < (Fin 2 :: rat fp)) (Fin 2) (Fin (- (7 / 2))))
      = wrap grid_arith (Fin 0 < (Fin 2 :: rat fp)) (Fin 2) (Fin (- (7 / 2)))
   \<and> feq (wrap grid_arith (Fin 0 < (Fin 2 :: rat fp)) (Fin 2)
            (wrap grid_arith (Fin 0 < (Fin 2 :: rat fp)) (Fin 2) (Fin (- (7 / 2)))))
          (wrap grid_arith (Fin 0 < (Fin 2 :: rat fp)) (Fin 2) (Fin (- (7 / 2))))"
proof -
  have q: "\<forall>q. (Fin 2 :: rat fp) = Fin q \<longrightarrow> representable (rnd grid_arith) q"
    using grid_arith_rounding(3) by simp
  have per: "Fin 0 < (Fin 2 :: rat fp)" by simp
  have e: "wrap grid_arith (Fin 0 < (Fin 2 :: rat fp)) (Fin 2) (Fin (- (7 / 2))) = Fin (1 / 2)"
    by code_simp
  note th = wrap_idempotent [OF grid_arith_rounding(1,2) q per, of "Fin (- (7 / 2))"]
  from th have a: "wrap grid_arith (Fin 0 < (Fin 2 :: rat fp)) (Fin 2)
        (wrap grid_arith (Fin 0 < (Fin 2 :: rat fp)) (Fin 2) (Fin (- (7 / 2))))
      = wrap grid_arith (Fin 0 < (Fin 2 :: rat fp)) (Fin 2) (Fin (- (7 / 2)))"
    by (rule conjunct1)
  from e have "wrap grid_arith (Fin 0 < (Fin 2 :: rat fp)) (Fin 2) (Fin (- (7 / 2))) \<noteq> NaN"
    by simp
  with th have "feq (wrap grid_arith (Fin 0 < (Fin 2 :: rat fp)) (Fin 2)
            (wrap grid_arith (Fin 0 < (Fin 2 :: rat fp)) (Fin 2) (Fin (- (7 / 2)))))
          (wrap grid_arith (Fin 0 < (Fin 2 :: rat fp)) (Fin 2) (Fin (- (7 / 2))))"
    by blast
  note a this
  with grid_arith_rounding e per show ?thesis by (intro conjI)
qed

text \<open>
  The comparison of the claim is false for an infinite query with the period \<open>2\<close>, and
  for the query \<open>-1\<close> with the period \<open>+\<infinity>\<close>: both sides are NaN.
\<close>

theorem wrap_idempotent_counterexample:
  "Fin 0 < (Fin 2 :: rat fp)
   \<and> wrap grid_arith (Fin 0 < (Fin 2 :: rat fp)) (Fin 2) PInf = NaN
   \<and> wrap grid_arith (Fin 0 < (Fin 2 :: rat fp)) (Fin 2)
        (wrap grid_arith (Fin 0 < (Fin 2 :: rat fp)) (Fin 2) PInf) = NaN
   \<and> \<not> feq (wrap grid_arith (Fin 0 < (Fin 2 :: rat fp)) (Fin 2)
              (wrap grid_arith (Fin 0 < (Fin 2 :: rat fp)) (Fin 2) PInf))
            (wrap grid_arith (Fin 0 < (Fin 2 :: rat fp)) (Fin 2) PInf)
   \<and> Fin 0 < (PInf :: rat fp)
   \<and> wrap grid_arith (Fin 0 < (PInf :: rat fp)) PInf (Fin (- 1)) = NaN
   \<and> \<not> feq (wrap grid_arith (Fin 0 < (PInf :: rat fp)) PInf
              (wrap grid_arith (Fin 0 < (PInf :: rat fp)) PInf (Fin (- 1))))
            (wrap grid_arith (Fin 0 < (PInf :: rat fp)) PInf (Fin (- 1)))"
  by (simp add: wrap_def feq_def)

text \<open>
  C6. In a row \<open>k\<close> whose period \<open>p(k)\<close> is \<open>\<le> 0\<close> the lambda's \<open>flag\<close> is false, the
  wrap step returns every value as it is, whatever its sign or size, and so the wrapped
  value of every query \<open>n\<close> of the row is \<open>t(k, n)\<close> itself.
\<close>

theorem wrap_disabled:
  fixes p :: "'a::floor_ceiling fp tensor"
  assumes "flat p ! nat k \<le> Fin 0"
  shows "\<not> c_flag (row_captures t p x y N M k (flat p ! nat k))
         \<and> wrap f (c_flag (row_captures t p x y N M k (flat p ! nat k)))
                (c_period (row_captures t p x y N M k (flat p ! nat k))) val = val
         \<and> wrapped f t p k n = cell t k n"
proof -
  from assms have "\<not> Fin 0 < flat p ! nat k" by (rule fp_le_not_less)
  then show ?thesis by (simp add: row_captures_def wrap_def wrapped_def)
qed

theorem wrap_disabled_witness:
  "flat scenario_p ! nat 0 \<le> Fin 0
   \<and> \<not> c_flag (row_captures scenario_t scenario_p scenario_x scenario_y 7 4 0 (flat scenario_p ! nat 0))
   \<and> wrap grid_arith (c_flag (row_captures scenario_t scenario_p scenario_x scenario_y 7 4 0 (flat scenario_p ! nat 0)))
         (c_period (row_captures scenario_t scenario_p scenario_x scenario_y 7 4 0 (flat scenario_p ! nat 0)))
         (Fin (- 1)) = Fin (- 1)
   \<and> wrapped grid_arith scenario_t scenario_p 0 6 = cell scenario_t 0 6
   \<and> cell scenario_t 0 6 = Fin 10"
proof -
  have le: "flat scenario_p ! nat 0 \<le> Fin 0" by (simp add: scenario_p_def)
  have c: "cell scenario_t 0 6 = Fin 10" by code_simp
  from wrap_disabled [OF le, of scenario_t scenario_x scenario_y 7 4 grid_arith "Fin (- 1)" 6]
  have "\<not> c_flag (row_captures scenario_t scenario_p scenario_x scenario_y 7 4 0 (flat scenario_p ! nat 0))"
    and "wrap grid_arith (c_flag (row_captures scenario_t scenario_p scenario_x scenario_y 7 4 0 (flat scenario_p ! nat 0)))
         (c_period (row_captures scenario_t scenario_p scenario_x scenario_y 7 4 0 (flat scenario_p ! nat 0)))
         (Fin (- 1)) = Fin (- 1)"
    and "wrapped grid_arith scenario_t scenario_p 0 6 = cell scenario_t 0 6"
    by blast+
  with le c show ?thesis by (intro conjI)
qed

subsection \<open>Sharding\<close>

text \<open>
  C8. For every captured row, every state of the output buffers and every sharding of
  \<open>[0, N)\<close> into contiguous, disjoint blocks, in any order, running the work function block
  after block gives the result of one call of the work function on \<open>[0, N)\<close>: the same three
  buffers, or no result in both cases when an access leaves a buffer.
\<close>

theorem sharding_invariance:
  assumes "is_sharding N bs"
  shows "run_blocks f c bs out = work f c 0 N out"
  using sharding_blocks_set [OF assms] by (simp add: run_blocks_written work_written)

theorem sharding_invariance_witness:
  "is_sharding 7 [(4, 7), (0, 2), (2, 4)]
   \<and> run_blocks grid_arith (row_captures scenario_t scenario_p scenario_x scenario_y 7 4 0 (Fin 0)) [(4, 7), (0, 2), (2, 4)]
        \<lparr>v_data = map Fin [7, 7, 7, 7, 7, 7, 7], a_data = map Fin [9, 9, 9, 9, 9, 9, 9], inds_data = [8, 8, 8, 8, 8, 8, 8]\<rparr>
     = work grid_arith (row_captures scenario_t scenario_p scenario_x scenario_y 7 4 0 (Fin 0)) 0 7
        \<lparr>v_data = map Fin [7, 7, 7, 7, 7, 7, 7], a_data = map Fin [9, 9, 9, 9, 9, 9, 9], inds_data = [8, 8, 8, 8, 8, 8, 8]\<rparr>
   \<and> work grid_arith (row_captures scenario_t scenario_p scenario_x scenario_y 7 4 0 (Fin 0)) 0 7
        \<lparr>v_data = map Fin [7, 7, 7, 7, 7, 7, 7], a_data = map Fin [9, 9, 9, 9, 9, 9, 9], inds_data = [8, 8, 8, 8, 8, 8, 8]\<rparr>
     = Some \<lparr>v_data = map Fin [0, 0, 5, 10, 25, 30, 30], a_data = map Fin [9, 9, 1 / 2, 0, 1 / 2, 9, 9],
            inds_data = [0, 0, 1, 2, 3, 5, 5]\<rparr>"
proof -
  have s: "is_sharding 7 [(4, 7), (0, 2), (2, 4)]"
    by code_simp
  have w: "work grid_arith (row_captures scenario_t scenario_p scenario_x scenario_y 7 4 0 (Fin 0)) 0 7
        \<lparr>v_data = map Fin [7, 7, 7, 7, 7, 7, 7], a_data = map Fin [9, 9, 9, 9, 9, 9, 9], inds_data = [8, 8, 8, 8, 8, 8, 8]\<rparr>
     = Some \<lparr>v_data = map Fin [0, 0, 5, 10, 25, 30, 30], a_data = map Fin [9, 9, 1 / 2, 0, 1 / 2, 9, 9],
            inds_data = [0, 0, 1, 2, 3, 5, 5]\<rparr>"
    by code_simp
  from s sharding_invariance [OF s] w show ?thesis by (intro conjI)
qed

subsection \<open>Shape validation\<close>

text \<open>
  C7. If \<open>rank(t) < 1\<close>, or \<open>rank(p) \<noteq> rank(t) - 1\<close>, or \<open>rank(x) \<noteq> rank(t)\<close>, or
  \<open>shape(y) \<noteq> shape(x)\<close>, or an outer dimension of \<open>x\<close> or \<open>p\<close> differs from that of
  \<open>t\<close>, then \<^verbatim>\<open>Compute\<close> ends with the status \<open>InvalidArgument\<close> and the context holds no
  output: none of the three was allocated, and no row was computed.
\<close>

theorem shape_rejection:
  assumes "dims t < 1 \<or> dims p \<noteq> dims t - 1 \<or> dims x \<noteq> dims t \<or> shape y \<noteq> shape x
           \<or> (\<exists>k. 0 \<le> k \<and> k < dims t - 1 \<and> (dim_size x k \<noteq> dim_size t k \<or> dim_size p k \<noteq> dim_size t k))"
  shows "\<exists>msg. Compute f rt t p x y =
           Some \<lparr>ctx_status = InvalidArgument msg, output_v = None, output_a = None, output_inds = None\<rparr>"
proof (cases "dims t < 1 \<or> dims p \<noteq> dims t - 1 \<or> dims x \<noteq> dims t \<or> shape y \<noteq> shape x")
  case True
  then show ?thesis by (auto simp: Compute_def failed_def Let_def)
next
  case False
  with assms have "\<not> dims_agree t p x (dims t) 0" by (auto simp: dims_agree_def)
  then have "outer_dims t p x (dims t) 0 1 = Inl ''incompatible dimensions''"
    by (simp add: outer_dims_eq)
  with False show ?thesis by (simp add: Compute_def failed_def Let_def)
qed


theorem shape_rejection_witness:
  "dims \<lparr>shape = [], flat = map Fin [2 :: rat]\<rparr> \<noteq> dims \<lparr>shape = [2, 2], flat = map Fin [5 / 2, - (1 / 2), 1, 7 :: rat]\<rparr> - 1
   \<and> Compute grid_arith single_block \<lparr>shape = [2, 2], flat = map Fin [5 / 2, - (1 / 2), 1, 7 :: rat]\<rparr> \<lparr>shape = [], flat = map Fin [2 :: rat]\<rparr>
          \<lparr>shape = [2, 3], flat = map Fin [0, 1, 2, 4, 5, 9 :: rat]\<rparr> \<lparr>shape = [2, 3], flat = map Fin [0, 1, 2, 4, 5, 6 :: rat]\<rparr>
        = Some \<lparr>ctx_status = InvalidArgument ''p must have the dimension len(t.shape) - 1'',
                output_v = None, output_a = None, output_inds = None\<rparr>
   \<and> (0::int) \<le> 0 \<and> 0 < dims \<lparr>shape = [2, 2], flat = map Fin [5 / 2, - (1 / 2), 1, 7 :: rat]\<rparr> - 1
   \<and> dim_size \<lparr>shape = [3], flat = map Fin [2, - 1, 3 :: rat]\<rparr> 0 \<noteq> dim_size \<lparr>shape = [2, 2], flat = map Fin [5 / 2, - (1 / 2), 1, 7 :: rat]\<rparr> 0
   \<and> Compute grid_arith single_block \<lparr>shape = [2, 2], flat = map Fin [5 / 2, - (1 / 2), 1, 7 :: rat]\<rparr> \<lparr>shape = [3], flat = map Fin [2, - 1, 3 :: rat]\<rparr>
          \<lparr>shape = [2, 3], flat = map Fin [0, 1, 2, 4, 5, 9 :: rat]\<rparr> \<lparr>shape = [2, 3], flat = map Fin [0, 1, 2, 4, 5, 6 :: rat]\<rparr>
        = Some \<lparr>ctx_status = InvalidArgument ''incompatible dimensions'',
                output_v = None, output_a = None, output_inds = None\<rparr>"
proof -
  let ?t = "\<lparr>shape = [2, 2], flat = map Fin [5 / 2, - (1 / 2), 1, 7 :: rat]\<rparr>"
  let ?x = "\<lparr>shape = [2, 3], flat = map Fin [0, 1, 2, 4, 5, 9 :: rat]\<rparr>"
  let ?y = "\<lparr>shape = [2, 3], flat = map Fin [0, 1, 2, 4, 5, 6 :: rat]\<rparr>"
  let ?p0 = "\<lparr>shape = [], flat = map Fin [2 :: rat]\<rparr>"
  let ?p1 = "\<lparr>shape = [3], flat = map Fin [2, - 1, 3 :: rat]\<rparr>"
  have h0: "dims ?p0 \<noteq> dims ?t - 1"
    by (simp add: dims_def)
  have h1: "(0::int) \<le> 0" "0 < dims ?t - 1" "dim_size ?p1 0 \<noteq> dim_size ?t 0"
    by (simp_all add: dims_def dim_size_def)
  have e0: "Compute grid_arith single_block ?t ?p0 ?x ?y
        = Some \<lparr>ctx_status = InvalidArgument ''p must have the dimension len(t.shape) - 1'',
                output_v = None, output_a = None, output_inds = None\<rparr>"
    by (simp add: Compute_def dims_def failed_def)
  have e1: "Compute grid_arith single_block ?t ?p1 ?x ?y
        = Some \<lparr>ctx_status = InvalidArgument ''incompatible dimensions'',
                output_v = None, output_a = None, output_inds = None\<rparr>"
    by code_simp
  from h0 have d0: "dims ?t < 1 \<or> dims ?p0 \<noteq> dims ?t - 1 \<or> dims ?x \<noteq> dims ?t \<or> shape ?y \<noteq> shape ?x
      \<or> (\<exists>k. 0 \<le> k \<and> k < dims ?t - 1
            \<and> (dim_size ?x k \<noteq> dim_size ?t k \<or> dim_size ?p0 k \<noteq> dim_size ?t k))"
    by blast
  from h1 have d1: "dims ?t < 1 \<or> dims ?p1 \<noteq> dims ?t - 1 \<or> dims ?x \<noteq> dims ?t \<or> shape ?y \<noteq> shape ?x
      \<or> (\<exists>k. 0 \<le> k \<and> k < dims ?t - 1
            \<and> (dim_size ?x k \<noteq> dim_size ?t k \<or> dim_size ?p1 k \<noteq> dim_size ?t k))"
    by blast
  from shape_rejection [OF d0, of grid_arith single_block] shape_rejection [OF d1, of grid_arith single_block]
  have "(\<exists>msg. Compute grid_arith single_block ?t ?p0 ?x ?y =
           Some \<lparr>ctx_status = InvalidArgument msg, output_v = None, output_a = None, output_inds = None\<rparr>)
      \<and> (\<exists>msg. Compute grid_arith single_block ?t ?p1 ?x ?y =
           Some \<lparr>ctx_status = InvalidArgument msg, output_v = None, output_a = None, output_inds = None\<rparr>)"
    by blast
  with h0 h1 e0 e1 show ?thesis by (intro conjI)
qed

subsection \<open>The outputs of \<open>Compute\<close>\<close>



text \<open>
  C3. If the wrapped value is \<open>\<le> x[k][0]\<close> then \<open>v[k][n] = y[k][0]\<close> and
  \<open>inds[k][n] = 0\<close>; otherwise, if it is \<open>\<ge> x[k][M-1]\<close>, then \<open>v[k][n] = y[k][M-1]\<close> and
  \<open>inds[k][n] = M + 1\<close>. In both cases \<open>a[k][n]\<close> still holds what the runtime's
  allocation put there. The wrapped value is the one the code computes: in the periodic
  row of the examples the query \<open>-2\<^sup>-\<^sup>6\<^sup>0\<close> wraps to \<open>0\<close> and is clamped to the first knot.
\<close>

theorem clamp_outputs:
  assumes v: "valid_input t p x y" and cl: "classified f t p x"
    and sh: "is_sharding (row_len t) (shard rt (row_len t) (5 * row_len x))"
    and k: "0 \<le> k" "k < batch_size t" and n: "0 \<le> n" "n < row_len t"
  shows "\<exists>tv ta ti. Compute f rt t p x y =
             Some \<lparr>ctx_status = OK, output_v = Some tv, output_a = Some ta, output_inds = Some ti\<rparr>
      \<and> (wrapped f t p k n \<le> cell x k 0 \<longrightarrow>
            cell tv k n = cell y k 0 \<and> cell ti k n = 0
            \<and> cell ta k n = fresh_a rt (nat (k * row_len t + n)))
      \<and> (\<not> wrapped f t p k n \<le> cell x k 0 \<and> wrapped f t p k n \<ge> cell x k (row_len x - 1) \<longrightarrow>
            cell tv k n = cell y k (row_len x - 1) \<and> cell ti k n = row_len x + 1
            \<and> cell ta k n = fresh_a rt (nat (k * row_len t + n)))"
proof -
  let ?c = "row_captures t p x y (row_len t) (row_len x) k (flat p ! nat k)"
  from v have sy: "shape y = shape x" by (simp add: valid_input_def)
  note r = valid_point_readable [OF v k n]
  note view = captures_view pget_cell(1) pget_cell(2) [OF sy]
  note plow = point_low [OF r(1) n(1) r(2-4), unfolded view]
  note phigh = point_high [OF r(1) n(1) r(2-4), unfolded view]
  from Compute_valid [OF v cl sh] k n
  obtain tv ta ti where c: "Compute f rt t p x y =
             Some \<lparr>ctx_status = OK, output_v = Some tv, output_a = Some ta, output_inds = Some ti\<rparr>"
    and cells: "cell tv k n = pt_v f ?c n"
      "cell ta k n = (case pt_a f ?c n of None \<Rightarrow> fresh_a rt (nat (k * row_len t + n)) | Some w \<Rightarrow> w)"
      "cell ti k n = pt_inds f ?c n"
    by blast
  have low: "cell tv k n = cell y k 0 \<and> cell ti k n = 0
            \<and> cell ta k n = fresh_a rt (nat (k * row_len t + n))"
    if "wrapped f t p k n \<le> cell x k 0"
  proof -
    from that have "point f ?c n = Some (cell y k 0, None, 0)" by (rule plow)
    then show ?thesis by (simp add: cells pt_v_def pt_a_def pt_inds_def)
  qed
  have high: "cell tv k n = cell y k (row_len x - 1) \<and> cell ti k n = row_len x + 1
            \<and> cell ta k n = fresh_a rt (nat (k * row_len t + n))"
    if "\<not> wrapped f t p k n \<le> cell x k 0" "wrapped f t p k n \<ge> cell x k (row_len x - 1)"
  proof -
    from that have "point f ?c n = Some (cell y k (row_len x - 1), None, row_len x + 1)" by (rule phigh)
    then show ?thesis by (simp add: cells pt_v_def pt_a_def pt_inds_def)
  qed
  from c low high show ?thesis by blast
qed

theorem clamp_outputs_witness:
  "valid_input scenario_t scenario_p scenario_x scenario_y
   \<and> classified grid_arith scenario_t scenario_p scenario_x
   \<and> is_sharding (row_len scenario_t) (shard three_blocks (row_len scenario_t) (5 * row_len scenario_x))
   \<and> (0::int) \<le> 0 \<and> 0 < batch_size scenario_t \<and> (0::int) \<le> 5 \<and> 5 < row_len scenario_t
   \<and> \<not> wrapped grid_arith scenario_t scenario_p 0 5 \<le> cell scenario_x 0 0
   \<and> wrapped grid_arith scenario_t scenario_p 0 5 \<ge> cell scenario_x 0 (row_len scenario_x - 1)
   \<and> (\<exists>tv ta ti. Compute grid_arith three_blocks scenario_t scenario_p scenario_x scenario_y =
             Some \<lparr>ctx_status = OK, output_v = Some tv, output_a = Some ta, output_inds = Some ti\<rparr>
          \<and> cell tv 0 5 = cell scenario_y 0 (row_len scenario_x - 1) \<and> cell ti 0 5 = row_len scenario_x + 1
          \<and> cell ta 0 5 = fresh_a three_blocks (nat (0 * row_len scenario_t + 5)))
   \<and> valid_input periodic_t periodic_p periodic_x periodic_y
   \<and> classified grid_arith periodic_t periodic_p periodic_x
   \<and> is_sharding (row_len periodic_t) (shard three_blocks (row_len periodic_t) (5 * row_len periodic_x))
   \<and> 0 < batch_size periodic_t \<and> (0::int) \<le> 2 \<and> 2 < row_len periodic_t
   \<and> cell periodic_t 0 2 = Fin (- (1 / 2 ^ 60))
   \<and> wrapped grid_arith periodic_t periodic_p 0 2 = Fin 0
   \<and> wrapped grid_arith periodic_t periodic_p 0 2 \<le> cell periodic_x 0 0
   \<and> (\<exists>tv ta ti. Compute grid_arith three_blocks periodic_t periodic_p periodic_x periodic_y =
             Some \<lparr>ctx_status = OK, output_v = Some tv, output_a = Some ta, output_inds = Some ti\<rparr>
          \<and> cell tv 0 2 = cell periodic_y 0 0 \<and> cell ti 0 2 = 0
          \<and> cell ta 0 2 = fresh_a three_blocks (nat (0 * row_len periodic_t + 2)))"
proof -
  have k: "(0::int) \<le> 0" "0 < batch_size scenario_t" by (simp_all add: scenario_dims)
  have n5: "(0::int) \<le> 5" "5 < row_len scenario_t" by (simp_all add: scenario_dims)
  have kp: "(0::int) \<le> 0" "0 < batch_size periodic_t" by (simp_all add: periodic_dims)
  have n2: "(0::int) \<le> 2" "2 < row_len periodic_t" by (simp_all add: periodic_dims)
  have hi: "\<not> wrapped grid_arith scenario_t scenario_p 0 5 \<le> cell scenario_x 0 0"
    "wrapped grid_arith scenario_t scenario_p 0 5 \<ge> cell scenario_x 0 (row_len scenario_x - 1)"
    by code_simp+
  have c: "cell periodic_t 0 2 = Fin (- (1 / 2 ^ 60))" "wrapped grid_arith periodic_t periodic_p 0 2 = Fin 0"
    by code_simp+
  have lo: "wrapped grid_arith periodic_t periodic_p 0 2 \<le> cell periodic_x 0 0"
    by code_simp
  from clamp_outputs [OF scenario_valid scenario_classified scenario_three_blocks k n5] hi
  have s: "\<exists>tv ta ti. Compute grid_arith three_blocks scenario_t scenario_p scenario_x scenario_y =
             Some \<lparr>ctx_status = OK, output_v = Some tv, output_a = Some ta, output_inds = Some ti\<rparr>
          \<and> cell tv 0 5 = cell scenario_y 0 (row_len scenario_x - 1) \<and> cell ti 0 5 = row_len scenario_x + 1
          \<and> cell ta 0 5 = fresh_a three_blocks (nat (0 * row_len scenario_t + 5))"
    by blast
  from clamp_outputs [OF periodic_valid periodic_classified periodic_three_blocks kp n2] lo
  have p: "\<exists>tv ta ti. Compute grid_arith three_blocks periodic_t periodic_p periodic_x periodic_y =
             Some \<lparr>ctx_status = OK, output_v = Some tv, output_a = Some ta, output_inds = Some ti\<rparr>
          \<and> cell tv 0 2 = cell periodic_y 0 0 \<and> cell ti 0 2 = 0
          \<and> cell ta 0 2 = fresh_a three_blocks (nat (0 * row_len periodic_t + 2))"
    by blast
  from scenario_valid scenario_classified scenario_three_blocks k n5 hi s
    periodic_valid periodic_classified periodic_three_blocks kp(2) n2 c lo p
  show ?thesis by (intro conjI)
qed

text \<open>
  C4. For the scenario \<open>x = [0, 1, 2, 3]\<close>, \<open>y = [0, 10, 20, 30]\<close>, \<open>p = 0\<close>,
  \<open>t = [-1, 0, 0.5, 1, 2.5, 3, 10]\<close>, under every sharding of the seven queries, the
  operation succeeds with \<open>v = [0, 0, 5, 10, 25, 30, 30]\<close> and
  \<open>inds = [0, 0, 1, 2, 3, 5, 5]\<close>; \<open>a\<close> is \<open>0.5, 0, 0.5\<close> at the three interior queries
  and unwritten at the four clamped ones. This holds in every format in which the seven
  numbers \<open>0, 0.5, 1, 5, 10, 15, 25\<close> that the operations produce are exact, as they are
  in float and in double.
\<close>

theorem scenario_outputs:
  assumes sh: "is_sharding 7 (shard rt 7 20)"
    and ex: "exact_on f [0, 1 / 2, 1, 5, 10, 15, 25]"
  shows "Compute f rt scenario_t scenario_p scenario_x scenario_y =
           Some \<lparr>ctx_status = OK,
                 output_v = Some \<lparr>shape = [7], flat = [Fin 0, Fin 0, Fin 5, Fin 10, Fin 25, Fin 30, Fin 30]\<rparr>,
                 output_a = Some \<lparr>shape = [7],
                                  flat = [fresh_a rt 0, fresh_a rt 1, Fin (1 / 2), Fin 0, Fin (1 / 2),
                                          fresh_a rt 5, fresh_a rt 6]\<rparr>,
                 output_inds = Some \<lparr>shape = [7], flat = [0, 0, 1, 2, 3, 5, 5]\<rparr>\<rparr>"
proof -
  let ?c = "row_captures scenario_t scenario_p scenario_x scenario_y 7 4 0 (Fin 0)"
  have sh': "is_sharding (row_len scenario_t)
      (shard rt (row_len scenario_t) (5 * row_len scenario_x))"
    using sh by (simp add: scenario_dims)
  from Compute_valid [OF scenario_valid scenario_classified sh']
  obtain tv ta ti where c: "Compute f rt scenario_t scenario_p scenario_x scenario_y =
             Some \<lparr>ctx_status = OK, output_v = Some tv, output_a = Some ta, output_inds = Some ti\<rparr>"
    and shp0: "shape tv = shape scenario_t" "shape ta = shape scenario_t" "shape ti = shape scenario_t"
    and len0: "length (flat tv) = num_elements (shape scenario_t)"
      "length (flat ta) = num_elements (shape scenario_t)"
      "length (flat ti) = num_elements (shape scenario_t)"
    and all: "\<forall>k n. 0 \<le> k \<and> k < batch_size scenario_t \<and> 0 \<le> n \<and> n < row_len scenario_t \<longrightarrow>
            cell tv k n = pt_v f (row_captures scenario_t scenario_p scenario_x scenario_y
                                 (row_len scenario_t) (row_len scenario_x) k (flat scenario_p ! nat k)) n
            \<and> cell ta k n =
                (case pt_a f (row_captures scenario_t scenario_p scenario_x scenario_y
                             (row_len scenario_t) (row_len scenario_x) k (flat scenario_p ! nat k)) n of
                   None \<Rightarrow> fresh_a rt (nat (k * row_len scenario_t + n)) | Some w \<Rightarrow> w)
            \<and> cell ti k n = pt_inds f (row_captures scenario_t scenario_p scenario_x scenario_y
                                 (row_len scenario_t) (row_len scenario_x) k (flat scenario_p ! nat k)) n"
    by blast
  have shp: "shape tv = [7]" "shape ta = [7]" "shape ti = [7]"
    using shp0 by (simp_all add: scenario_dims)
  have len: "length (flat tv) = 7" "length (flat ta) = 7" "length (flat ti) = 7"
    using len0 by (simp_all add: scenario_dims num_elements_def)
  have cells: "cell tv 0 n = pt_v f ?c n
          \<and> cell ta 0 n = (case pt_a f ?c n of None \<Rightarrow> fresh_a rt (nat n) | Some w \<Rightarrow> w)
          \<and> cell ti 0 n = pt_inds f ?c n" if "0 \<le> n" "n < 7" for n
    using all [rule_format, of 0 n] that by (simp add: scenario_dims cong: option.case_cong)
  have nth: "cell tv 0 n = flat tv ! nat n" "cell ta 0 n = flat ta ! nat n" "cell ti 0 n = flat ti ! nat n" for n
    by (simp_all add: cell_def)
  note pts = scenario_points [OF ex]
  have v: "flat tv = [Fin 0, Fin 0, Fin 5, Fin 10, Fin 25, Fin 30, Fin 30]"
    using cells [of 0] cells [of 1] cells [of 2] cells [of 3] cells [of 4] cells [of 5] cells [of 6]
    by (subst list7 [OF len(1)]) (simp add: nth pt_v_def pts)
  have i: "flat ti = [0, 0, 1, 2, 3, 5, 5]"
    using cells [of 0] cells [of 1] cells [of 2] cells [of 3] cells [of 4] cells [of 5] cells [of 6]
    by (subst list7 [OF len(3)]) (simp add: nth pt_inds_def pts)
  have a: "flat ta = [fresh_a rt 0, fresh_a rt 1, Fin (1 / 2), Fin 0, Fin (1 / 2), fresh_a rt 5, fresh_a rt 6]"
    using cells [of 0] cells [of 1] cells [of 2] cells [of 3] cells [of 4] cells [of 5] cells [of 6]
    by (subst list7 [OF len(2)]) (simp add: nth pt_a_def pts)
  have "tv = \<lparr>shape = [7], flat = [Fin 0, Fin 0, Fin 5, Fin 10, Fin 25, Fin 30, Fin 30]\<rparr>"
    "ta = \<lparr>shape = [7], flat = [fresh_a rt 0, fresh_a rt 1, Fin (1 / 2), Fin 0, Fin (1 / 2),
                                 fresh_a rt 5, fresh_a rt 6]\<rparr>"
    "ti = \<lparr>shape = [7], flat = [0, 0, 1, 2, 3, 5, 5]\<rparr>"
    using shp v a i by simp_all
  with c show ?thesis by simp
qed

theorem scenario_outputs_witness:
  "is_sharding 7 (shard three_blocks 7 20)
   \<and> exact_on grid_arith [0, 1 / 2, 1, 5, 10, 15, 25]
   \<and> Compute grid_arith three_blocks scenario_t scenario_p scenario_x scenario_y =
       Some \<lparr>ctx_status = OK,
             output_v = Some \<lparr>shape = [7], flat = [Fin 0, Fin 0, Fin 5, Fin 10, Fin 25, Fin 30, Fin 30]\<rparr>,
             output_a = Some \<lparr>shape = [7], flat = [Fin (- 9), Fin (- 9), Fin (1 / 2), Fin 0, Fin (1 / 2),
                                                   Fin (- 9), Fin (- 9)]\<rparr>,
             output_inds = Some \<lparr>shape = [7], flat = [0, 0, 1, 2, 3, 5, 5]\<rparr>\<rparr>"
proof -
  have s: "is_sharding 7 (shard three_blocks 7 20)"
    by code_simp
  from scenario_outputs [OF s grid_arith_exact]
  have "Compute grid_arith three_blocks scenario_t scenario_p scenario_x scenario_y =
       Some \<lparr>ctx_status = OK,
             output_v = Some \<lparr>shape = [7], flat = [Fin 0, Fin 0, Fin 5, Fin 10, Fin 25, Fin 30, Fin 30]\<rparr>,
             output_a = Some \<lparr>shape = [7], flat = [Fin (- 9), Fin (- 9), Fin (1 / 2), Fin 0, Fin (1 / 2),
                                                   Fin (- 9), Fin (- 9)]\<rparr>,
             output_inds = Some \<lparr>shape = [7], flat = [0, 0, 1, 2, 3, 5, 5]\<rparr>\<rparr>"
    by (simp add: three_blocks_def)
  with s grid_arith_exact show ?thesis by (intro conjI)
qed

end
